theory Spec2Isabelle
  imports Main "HOL-Library.Sublist" "HOL-Library.Char_ord" "HOL-Library.List_Lexorder"
    "HOL-Library.Multiset"
begin

section \<open>The arXiv listing spider: page parsing, deduplication and ranking\<close>

text \<open>
  A shallow embedding of \<^verbatim>\<open>daily_arxiv/spiders/arxiv.py\<close> (class \<^verbatim>\<open>ArxivSpider\<close>).

  Python strings are modelled as \<^typ>\<open>string\<close>: a \<^typ>\<open>char\<close> is one of the code points 0 to 255,
  and \<^verbatim>\<open>str.lower\<close>, \<^verbatim>\<open>str.strip\<close> and the patterns do on them what Python does on these
  code points. Strings are ordered lexicographically by code point, as Python orders them.

  The selectors of the page (\<^verbatim>\<open>response.xpath\<close>, \<^verbatim>\<open>.css\<close>) belong to Scrapy; the model
  takes the elements they select as data. \<^verbatim>\<open>response.urljoin\<close> belongs to Scrapy and
  \<^verbatim>\<open>urllib\<close> too: it is a field of the response, a function that returns the absolute
  URL or raises.
\<close>

subsection \<open>Strings\<close>

definition is_digit :: "char \<Rightarrow> bool" where
  "is_digit c \<longleftrightarrow> CHR ''0'' \<le> c \<and> c \<le> CHR ''9''"

definition is_upper :: "char \<Rightarrow> bool" where
  "is_upper c \<longleftrightarrow> CHR ''A'' \<le> c \<and> c \<le> CHR ''Z''"

definition is_lower :: "char \<Rightarrow> bool" where
  "is_lower c \<longleftrightarrow> CHR ''a'' \<le> c \<and> c \<le> CHR ''z''"

text \<open>\<^verbatim>\<open>str.isspace\<close> on the code points below 256: tab, line feed, vertical tab, form
  feed, carriage return (9 to 13), the four separators 0x1C to 0x1F, the space (32), the
  next-line control 0x85 and the no-break space 0xA0.\<close>

definition is_space :: "char \<Rightarrow> bool" where
  "is_space c \<longleftrightarrow>
     (let n = (of_char c :: nat)
      in (9 \<le> n \<and> n \<le> 13) \<or> (28 \<le> n \<and> n \<le> 32) \<or> n = 133 \<or> n = 160)"

text \<open>\<^verbatim>\<open>str.lower\<close> on one code point below 256: the letters \<^verbatim>\<open>A\<close> to \<^verbatim>\<open>Z\<close> and the
  Latin-1 capitals 0xC0 to 0xDE, the multiplication sign 0xD7 apart, move up by 32.\<close>

definition lower_char :: "char \<Rightarrow> char" where
  "lower_char c =
     (let n = (of_char c :: nat)
      in if is_upper c \<or> (192 \<le> n \<and> n \<le> 222 \<and> n \<noteq> 215) then char_of (n + 32) else c)"

text \<open>\<^verbatim>\<open>s.lower()\<close>\<close>

definition lower :: "string \<Rightarrow> string" where
  "lower s = map lower_char s"

text \<open>\<^verbatim>\<open>s.strip()\<close>\<close>

definition strip :: "string \<Rightarrow> string" where
  "strip s = rev (dropWhile is_space (rev (dropWhile is_space s)))"

text \<open>\<^verbatim>\<open>needle in hay\<close>\<close>

fun str_contains :: "string \<Rightarrow> string \<Rightarrow> bool" where
  "str_contains needle [] = (needle = [])"
| "str_contains needle (c # cs) = (prefix needle (c # cs) \<or> str_contains needle cs)"

text \<open>\<^verbatim>\<open>sep.join(parts)\<close>\<close>

fun join :: "string \<Rightarrow> string list \<Rightarrow> string" where
  "join sep [] = []"
| "join sep [p] = p"
| "join sep (p # q # ps) = p @ sep @ join sep (q # ps)"

text \<open>\<^verbatim>\<open>s.split(",")\<close>: the pieces between the commas; an empty string gives one empty
  piece.\<close>

fun split_comma :: "string \<Rightarrow> string list" where
  "split_comma [] = [[]]"
| "split_comma (c # cs) =
     (if c = CHR '','' then [] # split_comma cs
      else (case split_comma cs of [] \<Rightarrow> [[c]] | p # ps \<Rightarrow> (c # p) # ps))"

text \<open>\<^verbatim>\<open>s.replace(old, new)\<close>: every occurrence of \<open>old\<close>, found from left to right without
  overlap, is replaced. With an empty \<open>old\<close>, Python puts \<open>new\<close> before every character and
  at the end.\<close>

function replace :: "string \<Rightarrow> string \<Rightarrow> string \<Rightarrow> string" where
  "replace old new [] = (if old = [] then new else [])"
| "replace old new (c # cs) =
     (if old = [] then new @ c # replace old new cs
      else if prefix old (c # cs) then new @ replace old new (drop (length old) (c # cs))
      else c # replace old new cs)"
  by pat_completeness auto
termination
  by (relation "measure (\<lambda>(old, new, s). length s)") auto

subsection \<open>The three patterns\<close>

text \<open>\<^verbatim>\<open>re.search(r"/list/([^/]+)/new", url)\<close>. At a position, after \<^verbatim>\<open>/list/\<close> the greedy
  \<^verbatim>\<open>[^/]+\<close> takes the whole run of characters up to the next slash (a shorter run would
  have to be followed by a slash, and is followed by a character of the run); the run must
  not be empty and \<^verbatim>\<open>/new\<close> must follow. The search returns the leftmost match.\<close>

definition list_new_at :: "string \<Rightarrow> string option" where
  "list_new_at s =
     (if prefix ''/list/'' s then
        (let rest = drop 6 s;
             tok = takeWhile (\<lambda>c. c \<noteq> CHR ''/'') rest;
             after = dropWhile (\<lambda>c. c \<noteq> CHR ''/'') rest
         in if tok \<noteq> [] \<and> prefix ''/new'' after then Some tok else None)
      else None)"

fun search_list_new :: "string \<Rightarrow> string option" where
  "search_list_new [] = list_new_at []"
| "search_list_new (c # cs) =
     (case list_new_at (c # cs) of Some tok \<Rightarrow> Some tok | None \<Rightarrow> search_list_new cs)"

text \<open>\<^verbatim>\<open>re.search(r"/abs/([0-9]{4}\.[0-9]{5})", abs_url)\<close>: group 1 of the leftmost match.\<close>

definition is_arxiv_id :: "string \<Rightarrow> bool" where
  "is_arxiv_id d \<longleftrightarrow>
     length d = 10 \<and> list_all is_digit (take 4 d) \<and> d ! 4 = CHR ''.'' \<and>
     list_all is_digit (drop 5 d)"

definition abs_id_at :: "string \<Rightarrow> string option" where
  "abs_id_at s =
     (if prefix ''/abs/'' s \<and> is_arxiv_id (take 10 (drop 5 s))
      then Some (take 10 (drop 5 s)) else None)"

fun search_abs_id :: "string \<Rightarrow> string option" where
  "search_abs_id [] = None"
| "search_abs_id (c # cs) =
     (case abs_id_at (c # cs) of Some d \<Rightarrow> Some d | None \<Rightarrow> search_abs_id cs)"

text \<open>\<^verbatim>\<open>re.findall(r"\(([a-z\-]+\.[A-Z]{2})\)", subjects_text)\<close>: group 1 of every match,
  from left to right without overlap. At a position, after the opening parenthesis the
  greedy \<^verbatim>\<open>[a-z\-]+\<close> takes the whole run of lower-case letters and hyphens (the dot that
  must follow is not in the class), then come the dot, two upper-case letters and the
  closing parenthesis. \<open>subject_code_at\<close> returns the code and the text after the match.\<close>

definition is_prefix_char :: "char \<Rightarrow> bool" where
  "is_prefix_char c \<longleftrightarrow> is_lower c \<or> c = CHR ''-''"

definition subject_code_at :: "string \<Rightarrow> (string \<times> string) option" where
  "subject_code_at s =
     (case s of
        [] \<Rightarrow> None
      | c # rest \<Rightarrow>
          if c = CHR ''('' then
            (let pre = takeWhile is_prefix_char rest
             in if pre = [] then None
                else (case dropWhile is_prefix_char rest of
                        d # a # b # e # rem \<Rightarrow>
                          if d = CHR ''.'' \<and> is_upper a \<and> is_upper b \<and> e = CHR '')''
                          then Some (pre @ [d, a, b], rem) else None
                      | _ \<Rightarrow> None))
          else None)"

function findall_codes :: "string \<Rightarrow> string list" where
  "findall_codes [] = []"
| "findall_codes (c # cs) =
     (case subject_code_at (c # cs) of
        Some (code, rem) \<Rightarrow> code # findall_codes rem
      | None \<Rightarrow> findall_codes cs)"
  by pat_completeness auto
termination
proof (relation "measure length", goal_cases)
  case 1
  show ?case by simp
next
  case (2 c cs)
  show ?case by simp
next
  case (3 c cs x2 code rem)
  then obtain d a b e where "dropWhile is_prefix_char cs = d # a # b # e # rem"
    by (auto simp: subject_code_at_def Let_def split: list.splits if_splits)
  moreover have "length (dropWhile is_prefix_char cs) \<le> length cs"
    by (rule length_dropWhile_le)
  ultimately show ?case by simp
qed

subsection \<open>Data\<close>

text \<open>The only exception of the model: \<^verbatim>\<open>urljoin\<close> raises \<^verbatim>\<open>ValueError\<close> on a reference
  it cannot parse.\<close>

datatype error = ValueError

text \<open>An anchor of a \<^verbatim>\<open>dt\<close>, with the two attributes the selectors read.\<close>

record anchor =
  title :: "string option"
  href :: "string option"

text \<open>A \<^verbatim>\<open>dt\<close>: its anchors, in document order. A \<^verbatim>\<open>dd\<close>: the text nodes under its
  \<^verbatim>\<open>.list-subjects\<close> elements, in document order.\<close>

record dt_elem =
  anchors :: "anchor list"

record dd_elem =
  list_subjects_text :: "string list"

text \<open>A child of \<^verbatim>\<open>div#dlpage\<close> that the XPath selects: its tag, its text nodes
  (\<^verbatim>\<open>section.css("::text").getall()\<close>), and the \<^verbatim>\<open>dt\<close> and \<^verbatim>\<open>dd\<close> elements under it
  (\<^verbatim>\<open>section.css("dt")\<close>, \<^verbatim>\<open>section.css("dd")\<close>).\<close>

record element =
  tag :: string
  text_nodes :: "string list"
  dts :: "dt_elem list"
  dds :: "dd_elem list"

record response =
  url :: string
  urljoin :: "string \<Rightarrow> error + string"
  dlpage :: "element list"

text \<open>The emitted record has the four fields of \<open>paper\<close>; while a page is processed it
  carries the two sort keys as well. \<^verbatim>\<open>list(set(...))\<close> has no specified order, so
  \<open>categories\<close> is a set.\<close>

record paper =
  id_field :: string
  abs_field :: string
  pdf_field :: string
  categories :: "string set"

record item = paper +
  cat_priority :: int
  section_rank :: int

text \<open>The spider object: the fields \<^verbatim>\<open>__init__\<close> sets, and the lines its logger has
  received at warning level.\<close>

record spider =
  CAT_PRIORITY :: "string \<rightharpoonup> int"
  target_categories :: "string set"
  start_urls :: "string list"
  seen_ids :: "string set"
  warnings :: "string list"

text \<open>The local variables of \<^verbatim>\<open>parse\<close> that its loops change, with the spider.\<close>

record pstate =
  self :: spider
  current_section_rank :: int
  page_items :: "item list"

subsection \<open>\<^verbatim>\<open>__init__\<close>\<close>

text \<open>\<^verbatim>\<open>d.get(k, default)\<close>\<close>

definition dict_get :: "('k \<rightharpoonup> 'v) \<Rightarrow> 'k \<Rightarrow> 'v \<Rightarrow> 'v" where
  "dict_get d k dflt = (case d k of None \<Rightarrow> dflt | Some v \<Rightarrow> v)"

text \<open>The argument is the value of the environment variable \<^verbatim>\<open>CATEGORIES\<close>, \<open>None\<close>
  when it is not set. \<^verbatim>\<open>list.sort\<close> is stable, as \<^const>\<open>sort_key\<close> is.\<close>

definition init :: "string option \<Rightarrow> spider" where
  "init env =
     (let categories = (case env of None \<Rightarrow> ''cs.CV'' | Some v \<Rightarrow> v);
          cats = filter (\<lambda>c. c \<noteq> []) (map strip (split_comma categories));
          prio = [''math.QA'' \<mapsto> 0, ''math.RT'' \<mapsto> 1];
          cats = sort_key (\<lambda>c. dict_get prio c 99) cats
      in \<lparr>CAT_PRIORITY = prio,
          target_categories = set cats,
          start_urls = map (\<lambda>cat. ''https://arxiv.org/list/'' @ cat @ ''/new'') cats,
          seen_ids = {},
          warnings = []\<rparr>)"

subsection \<open>\<^verbatim>\<open>parse\<close>\<close>

text \<open>Lines 48 to 50: the source category of the page and its priority.\<close>

definition source_cat_of :: "string \<Rightarrow> string" where
  "source_cat_of u = (case search_list_new u of None \<Rightarrow> [] | Some tok \<Rightarrow> tok)"

definition cat_priority_of :: "spider \<Rightarrow> string \<Rightarrow> int" where
  "cat_priority_of sp u = dict_get (CAT_PRIORITY sp) (source_cat_of u) 99"

text \<open>Lines 62 to 70: the rank a heading sets, from its text nodes.\<close>

definition heading_rank :: "string list \<Rightarrow> int" where
  "heading_rank texts =
     (let heading = lower (strip (concat texts))
      in if str_contains ''new submission'' heading then 0
         else if str_contains ''cross submission'' heading then 1
         else if str_contains ''replacement'' heading then 2
         else 3)"

text \<open>\<^verbatim>\<open>paper_dt.css("a[title='Abstract']::attr(href)").get()\<close>: the \<^verbatim>\<open>href\<close> of the first
  anchor that has the title and has an \<^verbatim>\<open>href\<close>; and
  \<^verbatim>\<open>paper_dt.css("a[href*='/abs/']::attr(href)").get()\<close>: the first \<^verbatim>\<open>href\<close> that contains
  \<^verbatim>\<open>/abs/\<close>.\<close>

definition css_title_abstract :: "dt_elem \<Rightarrow> string option" where
  "css_title_abstract paper_dt =
     (case List.map_filter href (filter (\<lambda>a. title a = Some ''Abstract'') (anchors paper_dt)) of
        [] \<Rightarrow> None | h # _ \<Rightarrow> Some h)"

definition css_href_abs :: "dt_elem \<Rightarrow> string option" where
  "css_href_abs paper_dt =
     (case filter (str_contains ''/abs/'') (List.map_filter href (anchors paper_dt)) of
        [] \<Rightarrow> None | h # _ \<Rightarrow> Some h)"

text \<open>\<^verbatim>\<open>not abs_href\<close>: \<^verbatim>\<open>None\<close> or the empty string.\<close>

definition falsy :: "string option \<Rightarrow> bool" where
  "falsy h \<longleftrightarrow> h = None \<or> h = Some []"

text \<open>Lines 102 and 103.\<close>

definition subjects_text_of :: "dd_elem \<Rightarrow> string" where
  "subjects_text_of paper_dd =
     join '' '' (map strip (filter (\<lambda>t. strip t \<noteq> []) (list_subjects_text paper_dd)))"

definition warning_line :: "string \<Rightarrow> string \<Rightarrow> string" where
  "warning_line arxiv_id source_cat =
     ''Could not extract categories for paper '' @ arxiv_id @ '', source page = '' @ source_cat"

text \<open>A loop whose body may raise: the result is \<open>Inl\<close> with the exception and the state
  at the moment it was raised, or \<open>Inr\<close> with the state after the last element.\<close>

fun for_each :: "('s \<Rightarrow> 'a \<Rightarrow> (error \<times> 's) + 's) \<Rightarrow> 's \<Rightarrow> 'a list \<Rightarrow> (error \<times> 's) + 's" where
  "for_each body st [] = Inr st"
| "for_each body st (x # xs) =
     (case body st x of Inl raised \<Rightarrow> Inl raised | Inr st' \<Rightarrow> for_each body st' xs)"

text \<open>Lines 82 to 86: the link of the entry, \<open>None\<close> where the loop goes on to the next
  entry.\<close>

definition entry_href :: "dt_elem \<Rightarrow> string option" where
  "entry_href paper_dt =
     (let abs_href = css_title_abstract paper_dt;
          abs_href = (if falsy abs_href then css_href_abs paper_dt else abs_href)
      in if falsy abs_href then None else abs_href)"

text \<open>Lines 81 to 127: the body of the loop over the pairs of a \<^verbatim>\<open>dl\<close>. Each
  \<^verbatim>\<open>continue\<close> returns the state as it is.\<close>

definition process_entry ::
  "response \<Rightarrow> string \<Rightarrow> int \<Rightarrow> pstate \<Rightarrow> dt_elem \<times> dd_elem \<Rightarrow> (error \<times> pstate) + pstate" where
  "process_entry resp source_cat cat_prio st entry =
     (case entry of (paper_dt, paper_dd) \<Rightarrow>
        (case entry_href paper_dt of
           None \<Rightarrow> Inr st
         | Some abs_href \<Rightarrow>
             (case urljoin resp abs_href of
                Inl err \<Rightarrow> Inl (err, st)
              | Inr abs_url \<Rightarrow>
                  (case search_abs_id abs_url of
                     None \<Rightarrow> Inr st
                   | Some arxiv_id \<Rightarrow>
                       if arxiv_id \<in> seen_ids (self st) then Inr st
                       else
                         let sp1 = (self st)\<lparr>seen_ids := insert arxiv_id (seen_ids (self st))\<rparr>;
                             subjects_text = subjects_text_of paper_dd;
                             paper_categories = set (findall_codes subjects_text);
                             sp2 = (if subjects_text = []
                                    then sp1\<lparr>warnings := warnings sp1 @
                                           [warning_line arxiv_id source_cat]\<rparr>
                                    else sp1)
                         in Inr (st\<lparr>self := sp2,
                                   page_items := page_items st @
                                     [\<lparr>id_field = arxiv_id,
                                       abs_field = abs_url,
                                       pdf_field = replace ''/abs/'' ''/pdf/'' abs_url,
                                       categories = paper_categories,
                                       cat_priority = cat_prio,
                                       section_rank = current_section_rank st\<rparr>]\<rparr>)))))"

text \<open>Lines 58 to 80: the body of the loop over the children of \<^verbatim>\<open>div#dlpage\<close>.\<close>

definition process_section ::
  "response \<Rightarrow> string \<Rightarrow> int \<Rightarrow> pstate \<Rightarrow> element \<Rightarrow> (error \<times> pstate) + pstate" where
  "process_section resp source_cat cat_prio st section =
     (let t = lower (tag section)
      in if t = ''h3'' then Inr (st\<lparr>current_section_rank := heading_rank (text_nodes section)\<rparr>)
         else if t \<noteq> ''dl'' then Inr st
         else for_each (process_entry resp source_cat cat_prio) st
                (zip (dts section) (dds section)))"

text \<open>Lines 48 to 127: everything before the sort.\<close>

definition collect :: "spider \<Rightarrow> response \<Rightarrow> (error \<times> pstate) + pstate" where
  "collect sp resp =
     for_each (process_section resp (source_cat_of (url resp)) (cat_priority_of sp (url resp)))
       \<lparr>self = sp, current_section_rank = 3, page_items = []\<rparr> (dlpage resp)"

text \<open>Lines 132 to 134. \<^verbatim>\<open>list.sort\<close> is stable; with \<^verbatim>\<open>reverse=True\<close> it reverses the list,
  sorts it and reverses it again, so that equal keys keep their order.\<close>

definition rank_items :: "item list \<Rightarrow> item list" where
  "rank_items items =
     sort_key cat_priority (sort_key section_rank (rev (sort_key id_field (rev items))))"

text \<open>\<^verbatim>\<open>parse\<close> yields nothing before the sort, so an exception in the loops leaves no
  record; what the loops did to the spider stays. The two \<^verbatim>\<open>pop\<close> calls cut the record
  down to the four fields of \<open>paper\<close>.\<close>

definition parse :: "spider \<Rightarrow> response \<Rightarrow> spider \<times> (error + paper list)" where
  "parse sp resp =
     (case collect sp resp of
        Inl (err, st) \<Rightarrow> (self st, Inl err)
      | Inr st \<Rightarrow> (self st, Inr (map paper.truncate (rank_items (page_items st)))))"

text \<open>The records a call of \<^verbatim>\<open>parse\<close> yields: none when it raised.\<close>

definition yielded :: "error + paper list \<Rightarrow> paper list" where
  "yielded out = (case out of Inl err \<Rightarrow> [] | Inr ps \<Rightarrow> ps)"

text \<open>A run: Scrapy calls \<^verbatim>\<open>parse\<close> on the responses one after the other
  (\<^verbatim>\<open>CONCURRENT_REQUESTS\<close> is 1) with the same spider object; a call that raises
  contributes no record. The result is the spider and the records in the order yielded.\<close>

fun run :: "spider \<Rightarrow> response list \<Rightarrow> spider \<times> paper list" where
  "run sp [] = (sp, [])"
| "run sp (resp # resps) =
     (case parse sp resp of
        (sp', out) \<Rightarrow>
          (case run sp' resps of
             (sp'', rest) \<Rightarrow> (sp'', yielded out @ rest)))"

subsection \<open>Auxiliary definitions\<close>

text \<open>The state a loop ends in, whether it ended by an exception or not.\<close>

definition state_of :: "(error \<times> 's) + 's \<Rightarrow> 's" where
  "state_of r = (case r of Inl (err, st) \<Rightarrow> st | Inr st \<Rightarrow> st)"

text \<open>The record that lines 117 to 127 append.\<close>

definition new_item :: "string \<Rightarrow> string \<Rightarrow> dd_elem \<Rightarrow> int \<Rightarrow> int \<Rightarrow> item" where
  "new_item arxiv_id abs_url paper_dd cat_prio rank =
     \<lparr>id_field = arxiv_id, abs_field = abs_url,
      pdf_field = replace ''/abs/'' ''/pdf/'' abs_url,
      categories = set (findall_codes (subjects_text_of paper_dd)),
      cat_priority = cat_prio, section_rank = rank\<rparr>"

text \<open>What the loops keep true of the identifiers: \<open>seen0\<close> is the set at the start of
  the page.\<close>

definition dedup_inv :: "string set \<Rightarrow> pstate \<Rightarrow> bool" where
  "dedup_inv seen0 st \<longleftrightarrow>
     distinct (map id_field (page_items st)) \<and>
     id_field ` set (page_items st) \<inter> seen0 = {} \<and>
     seen_ids (self st) = seen0 \<union> id_field ` set (page_items st)"

text \<open>What the blocks under a heading keep: the rank \<open>r\<close> that the heading set, on the
  state and on every record appended since \<open>st0\<close>.\<close>

definition rank_kept :: "int \<Rightarrow> pstate \<Rightarrow> pstate \<Rightarrow> bool" where
  "rank_kept r st0 st \<longleftrightarrow>
     current_section_rank st = r \<and>
     (\<exists>new. page_items st = page_items st0 @ new \<and> (\<forall>it \<in> set new. section_rank it = r))"

text \<open>The order of two keys, the first one deciding; and the order the comment at
  line 130 names: category priority, then section, then identifier downwards.\<close>

definition lex_before :: "('a \<Rightarrow> 'k::linorder) \<Rightarrow> ('a \<Rightarrow> 'a \<Rightarrow> bool) \<Rightarrow> 'a \<Rightarrow> 'a \<Rightarrow> bool" where
  "lex_before f R a b \<longleftrightarrow> f a < f b \<or> (f a = f b \<and> R a b)"

definition ranked_before :: "item \<Rightarrow> item \<Rightarrow> bool" where
  "ranked_before a b \<longleftrightarrow>
     cat_priority a < cat_priority b \<or>
     (cat_priority a = cat_priority b \<and>
        (section_rank a < section_rank b \<or>
         (section_rank a = section_rank b \<and> id_field b \<le> id_field a)))"


subsection \<open>Worked examples\<close>

text \<open>A \<^verbatim>\<open>urljoin\<close> for the examples: an absolute \<^verbatim>\<open>https\<close> URL is returned as it is, a
  path that starts with a slash is put after \<^verbatim>\<open>https://arxiv.org\<close>, and anything else
  raises.\<close>

definition example_urljoin :: "string \<Rightarrow> error + string" where
  "example_urljoin h =
     (if prefix ''https://'' h then Inr h
      else if prefix ''/'' h then Inr (''https://arxiv.org'' @ h)
      else Inl ValueError)"

definition entry :: "string option \<Rightarrow> string option \<Rightarrow> string list \<Rightarrow> dt_elem \<times> dd_elem" where
  "entry t h subjects = (\<lparr>anchors = [\<lparr>title = t, href = h\<rparr>]\<rparr>, \<lparr>list_subjects_text = subjects\<rparr>)"

definition heading :: "string \<Rightarrow> element" where
  "heading t = \<lparr>tag = ''h3'', text_nodes = [t], dts = [], dds = []\<rparr>"

definition block :: "(dt_elem \<times> dd_elem) list \<Rightarrow> element" where
  "block es = \<lparr>tag = ''dl'', text_nodes = [], dts = map fst es, dds = map snd es\<rparr>"

text \<open>A listing page of \<^verbatim>\<open>math.QA\<close>: two new papers, the first of them listed twice, a
  cross-listed paper under the heading in today's wording and one under the heading in the
  older wording, whose link has a six-digit number, and an old-style identifier.\<close>

definition example_page :: response where
  "example_page =
     \<lparr>url = ''https://arxiv.org/list/math.QA/new'',
      urljoin = example_urljoin,
      dlpage =
        [heading ''New submissions (showing 2 of 2 entries)'',
         block
           [entry (Some ''Abstract'') (Some ''/abs/2406.00001'')
              [''Subjects: '', ''Quantum Algebra (math.QA)'', ''; Representation Theory (math.RT)''],
            entry None (Some ''/abs/2406.00002'') [],
            entry None (Some ''/abs/2406.00001'') [''Quantum Algebra (math.QA)'']],
         heading ''Cross submissions (showing 1 of 1 entries)'',
         block
           [entry (Some ''Abstract'') (Some ''/abs/2406.00009'') [''Computer Vision (cs.CV)'']],
         heading ''Cross-lists for Mon, 3 Jun 24'',
         block
           [entry None (Some ''/abs/math/0601001'') [],
            entry None None [],
            entry (Some ''Abstract'') (Some ''https://arxiv.org/abs/2406.000031'') [''(hep-th.XX)'']]]\<rparr>"

text \<open>A listing page of \<^verbatim>\<open>math.RT\<close> that lists a paper of the page above again.\<close>

definition example_page_rt :: response where
  "example_page_rt =
     \<lparr>url = ''https://arxiv.org/list/math.RT/new'',
      urljoin = example_urljoin,
      dlpage =
        [heading ''New submissions (showing 2 of 2 entries)'',
         block
           [entry (Some ''Abstract'') (Some ''/abs/2406.00001'') [''Representation Theory (math.RT)''],
            entry (Some ''Abstract'') (Some ''/abs/2406.00005'') [''Representation Theory (math.RT)'']]]\<rparr>"

text \<open>A page whose only entry has \<^verbatim>\<open>/abs/\<close> twice in its link.\<close>

definition example_page_twice :: response where
  "example_page_twice =
     \<lparr>url = ''https://arxiv.org/list/math.QA/new'',
      urljoin = example_urljoin,
      dlpage =
        [block [entry (Some ''Abstract'') (Some ''https://arxiv.org/abs/x/abs/2406.01234'') []]]\<rparr>"

text \<open>A subject code as the specification words it: a prefix of lower-case letters and
  hyphens that is not empty, a dot and two upper-case letters.\<close>

definition is_subject_code :: "string \<Rightarrow> bool" where
  "is_subject_code c \<longleftrightarrow>
     (case rev c of
        b # a # d # pre \<Rightarrow>
          pre \<noteq> [] \<and> list_all is_prefix_char pre \<and> d = CHR ''.'' \<and> is_upper a \<and> is_upper b
      | _ \<Rightarrow> False)"

text \<open>The replacement the specification words: the first occurrence of \<open>old\<close> only.\<close>

fun replace_first :: "string \<Rightarrow> string \<Rightarrow> string \<Rightarrow> string" where
  "replace_first old new [] = (if old = [] then new else [])"
| "replace_first old new (c # cs) =
     (if prefix old (c # cs) then new @ drop (length old) (c # cs)
      else c # replace_first old new cs)"

text \<open>A page with a five-digit link and then a six-digit link that begins with the same
  digits.\<close>

definition example_page_collide :: response where
  "example_page_collide =
     \<lparr>url = ''https://arxiv.org/list/math.QA/new'',
      urljoin = example_urljoin,
      dlpage =
        [block [entry (Some ''Abstract'') (Some ''/abs/2406.00003'') [''Quantum Algebra (math.QA)''],
                entry (Some ''Abstract'') (Some ''/abs/2406.000031'') [''Quantum Algebra (math.QA)'']]]\<rparr>"

text \<open>A state for the examples: one identifier seen, inside the first block of a page.\<close>

definition example_state :: pstate where
  "example_state =
     \<lparr>self = (init None)\<lparr>seen_ids := {''2406.00001''}\<rparr>,
      current_section_rank = 0, page_items = []\<rparr>"

section \<open>Properties\<close>

subsection \<open>The loops\<close>

lemma state_of_simps [simp]: "state_of (Inl (e, st)) = st" "state_of (Inr st) = st"
  by (simp_all add: state_of_def)

lemma process_entry_skip_href:
  "entry_href paper_dt = None \<Longrightarrow> process_entry resp sc cp st (paper_dt, paper_dd) = Inr st"
  by (simp add: process_entry_def)

lemma process_entry_raise:
  "entry_href paper_dt = Some h \<Longrightarrow> urljoin resp h = Inl err \<Longrightarrow>
   process_entry resp sc cp st (paper_dt, paper_dd) = Inl (err, st)"
  by (simp add: process_entry_def)

lemma process_entry_skip_id:
  "entry_href paper_dt = Some h \<Longrightarrow> urljoin resp h = Inr u \<Longrightarrow> search_abs_id u = None \<Longrightarrow>
   process_entry resp sc cp st (paper_dt, paper_dd) = Inr st"
  by (simp add: process_entry_def)

lemma process_entry_skip_seen:
  "entry_href paper_dt = Some h \<Longrightarrow> urljoin resp h = Inr u \<Longrightarrow> search_abs_id u = Some i \<Longrightarrow>
   i \<in> seen_ids (self st) \<Longrightarrow>
   process_entry resp sc cp st (paper_dt, paper_dd) = Inr st"
  by (simp add: process_entry_def)

lemma process_entry_emit:
  "entry_href paper_dt = Some h \<Longrightarrow> urljoin resp h = Inr u \<Longrightarrow> search_abs_id u = Some i \<Longrightarrow>
   i \<notin> seen_ids (self st) \<Longrightarrow>
   process_entry resp sc cp st (paper_dt, paper_dd) =
     Inr (st\<lparr>self := (self st)\<lparr>seen_ids := insert i (seen_ids (self st)),
                 warnings := (if subjects_text_of paper_dd = []
                              then warnings (self st) @ [warning_line i sc]
                              else warnings (self st))\<rparr>,
             page_items := page_items st @ [new_item i u paper_dd cp (current_section_rank st)]\<rparr>)"
  by (simp add: process_entry_def Let_def new_item_def)

text \<open>An entry leaves the state as it is or appends one record.\<close>

lemma process_entry_cases:
  obtains (same) "state_of (process_entry resp sc cp st e) = st"
  | (emit) h u i where "entry_href (fst e) = Some h" "urljoin resp h = Inr u"
      "search_abs_id u = Some i" "i \<notin> seen_ids (self st)"
      "process_entry resp sc cp st e =
         Inr (st\<lparr>self := (self st)\<lparr>seen_ids := insert i (seen_ids (self st)),
                 warnings := (if subjects_text_of (snd e) = []
                              then warnings (self st) @ [warning_line i sc]
                              else warnings (self st))\<rparr>,
             page_items := page_items st @ [new_item i u (snd e) cp (current_section_rank st)]\<rparr>)"
proof (cases e)
  case (Pair paper_dt paper_dd)
  show ?thesis
  proof (cases "entry_href paper_dt")
    case None
    then show ?thesis using same Pair by (simp add: process_entry_skip_href)
  next
    case (Some h)
    show ?thesis
    proof (cases "urljoin resp h")
      case (Inl err)
      then show ?thesis using same Pair Some by (simp add: process_entry_raise)
    next
      case (Inr u)
      show ?thesis
      proof (cases "search_abs_id u")
        case None
        then show ?thesis using same Pair Some Inr by (simp add: process_entry_skip_id)
      next
        case (Some i)
        show ?thesis
        proof (cases "i \<in> seen_ids (self st)")
          case True
          then show ?thesis using same Pair \<open>entry_href paper_dt = Some h\<close> Inr Some
            by (simp add: process_entry_skip_seen)
        next
          case False
          then show ?thesis
            using emit [of h u i] Pair \<open>entry_href paper_dt = Some h\<close> Inr Some
            by (simp add: process_entry_emit)
        qed
      qed
    qed
  qed
qed

text \<open>A property that every step keeps holds of the state the loop ends in.\<close>

lemma for_each_invariant:
  assumes "I st"
    and "\<And>s x. I s \<Longrightarrow> x \<in> set xs \<Longrightarrow> I (state_of (body s x))"
  shows "I (state_of (for_each body st xs))"
  using assms
proof (induction xs arbitrary: st)
  case Nil
  then show ?case by simp
next
  case (Cons x xs)
  have step: "I (state_of (body st x))" using Cons.prems by simp
  show ?case
  proof (cases "body st x")
    case (Inl raised)
    then show ?thesis using step by (cases raised) simp
  next
    case (Inr st')
    then have "I st'" using step by simp
    then have "I (state_of (for_each body st' xs))"
      using Cons.prems(2) by (intro Cons.IH) simp_all
    then show ?thesis using Inr by simp
  qed
qed

lemma truncate_fields [simp]:
  "id_field (paper.truncate it) = id_field it"
  "abs_field (paper.truncate it) = abs_field it"
  "pdf_field (paper.truncate it) = pdf_field it"
  "categories (paper.truncate it) = categories it"
  by (simp_all add: paper.truncate_def)

lemma new_item_fields [simp]:
  "id_field (new_item i u dd cp r) = i"
  "abs_field (new_item i u dd cp r) = u"
  "pdf_field (new_item i u dd cp r) = replace ''/abs/'' ''/pdf/'' u"
  "categories (new_item i u dd cp r) = set (findall_codes (subjects_text_of dd))"
  "cat_priority (new_item i u dd cp r) = cp"
  "section_rank (new_item i u dd cp r) = r"
  by (simp_all add: new_item_def)

lemma dedup_inv_entry:
  assumes "dedup_inv seen0 st"
  shows "dedup_inv seen0 (state_of (process_entry resp sc cp st e))"
proof (cases rule: process_entry_cases [of resp sc cp st e])
  case same
  then show ?thesis using assms by simp
next
  case (emit h u i)
  then show ?thesis using assms by (auto simp: dedup_inv_def)
qed

lemma process_section_cases:
  obtains (heading) "lower (tag sec) = ''h3''"
      "process_section resp sc cp st sec =
         Inr (st\<lparr>current_section_rank := heading_rank (text_nodes sec)\<rparr>)"
  | (ignored) "lower (tag sec) \<noteq> ''h3''" "lower (tag sec) \<noteq> ''dl''"
      "process_section resp sc cp st sec = Inr st"
  | (block) "lower (tag sec) = ''dl''"
      "process_section resp sc cp st sec =
         for_each (process_entry resp sc cp) st (zip (dts sec) (dds sec))"
  by (auto simp: process_section_def Let_def)

lemma dedup_inv_section:
  assumes "dedup_inv seen0 st"
  shows "dedup_inv seen0 (state_of (process_section resp sc cp st sec))"
proof (cases rule: process_section_cases [of sec resp sc cp st])
  case heading
  then show ?thesis using assms by (simp add: dedup_inv_def)
next
  case ignored
  then show ?thesis using assms by simp
next
  case block
  then show ?thesis using assms
    by (simp add: for_each_invariant [where I = "dedup_inv seen0"] dedup_inv_entry)
qed

lemma dedup_inv_collect: "dedup_inv (seen_ids sp) (state_of (collect sp resp))"
  unfolding collect_def
proof (rule for_each_invariant [where I = "dedup_inv (seen_ids sp)"])
  show "dedup_inv (seen_ids sp) \<lparr>self = sp, current_section_rank = 3, page_items = []\<rparr>"
    by (simp add: dedup_inv_def)
qed (rule dedup_inv_section)

lemma items_inv_entry:
  assumes new: "\<And>i u dd r. search_abs_id u = Some i \<Longrightarrow> P (new_item i u dd cp r)"
    and "\<forall>it \<in> set (page_items st). P it"
  shows "\<forall>it \<in> set (page_items (state_of (process_entry resp sc cp st e))). P it"
proof (cases rule: process_entry_cases [of resp sc cp st e])
  case same
  then show ?thesis using assms(2) by simp
next
  case (emit h u i)
  have "P (new_item i u (snd e) cp (current_section_rank st))"
    using emit(3) by (rule new)
  then show ?thesis using emit(5) assms(2) by simp
qed

lemma items_inv_section:
  assumes new: "\<And>i u dd r. search_abs_id u = Some i \<Longrightarrow> P (new_item i u dd cp r)"
    and old: "\<forall>it \<in> set (page_items st). P it"
  shows "\<forall>it \<in> set (page_items (state_of (process_section resp sc cp st sec))). P it"
proof (cases rule: process_section_cases [of sec resp sc cp st])
  case heading
  then show ?thesis using old by simp
next
  case ignored
  then show ?thesis using old by simp
next
  case block
  have "\<forall>it \<in> set (page_items (state_of (for_each (process_entry resp sc cp) st
          (zip (dts sec) (dds sec))))). P it"
  proof (rule for_each_invariant [where I = "\<lambda>s. \<forall>it \<in> set (page_items s). P it"])
    show "\<forall>it \<in> set (page_items st). P it" by (rule old)
  next
    fix s :: pstate and x
    assume "\<forall>it \<in> set (page_items s). P it"
    with new show "\<forall>it \<in> set (page_items (state_of (process_entry resp sc cp s x))). P it"
      by (intro items_inv_entry [where P = P and cp = cp])
  qed
  then show ?thesis using block by simp
qed

lemma items_inv_collect:
  assumes new: "\<And>i u dd r. search_abs_id u = Some i \<Longrightarrow>
      P (new_item i u dd (cat_priority_of sp (url resp)) r)"
  shows "\<forall>it \<in> set (page_items (state_of (collect sp resp))). P it"
  unfolding collect_def
proof (rule for_each_invariant [where I = "\<lambda>s. \<forall>it \<in> set (page_items s). P it"])
  show "\<forall>it \<in> set (page_items \<lparr>self = sp, current_section_rank = 3, page_items = []\<rparr>). P it"
    by simp
next
  fix s :: pstate and x
  assume "\<forall>it \<in> set (page_items s). P it"
  then show "\<forall>it \<in> set (page_items (state_of (process_section resp (source_cat_of (url resp))
      (cat_priority_of sp (url resp)) s x))). P it"
    using new by (intro items_inv_section [where P = P and cp = "cat_priority_of sp (url resp)"])
qed

lemma mset_rank_items: "mset (rank_items items) = mset items"
  by (simp add: rank_items_def)

lemma set_rank_items: "set (rank_items items) = set items"
  by (simp add: rank_items_def)

subsection \<open>The three sorts\<close>

lemma lex_before_key: "lex_before f R a b \<Longrightarrow> f a \<le> f b"
  by (auto simp: lex_before_def)

lemma insort_key_lex:
  assumes "sorted_wrt (lex_before f R) ys" and "\<forall>y \<in> set ys. R x y"
  shows "sorted_wrt (lex_before f R) (insort_key f x ys)"
  using assms
proof (induction ys)
  case Nil
  then show ?case by simp
next
  case (Cons y ys)
  show ?case
  proof (cases "f x \<le> f y")
    case True
    have "lex_before f R x z" if "z \<in> set (y # ys)" for z
    proof -
      have "f y \<le> f z" using that Cons.prems(1) by (auto dest: lex_before_key)
      with True have "f x \<le> f z" by simp
      moreover have "R x z" using that Cons.prems(2) by auto
      ultimately show ?thesis by (auto simp: lex_before_def)
    qed
    then show ?thesis using True Cons.prems(1) by simp
  next
    case False
    then have "lex_before f R y x" by (simp add: lex_before_def not_le)
    moreover have "sorted_wrt (lex_before f R) (insort_key f x ys)"
      using Cons by simp
    ultimately show ?thesis using False Cons.prems(1) by (auto simp: set_insort_key)
  qed
qed

lemma sort_key_lex:
  "sorted_wrt R xs \<Longrightarrow> sorted_wrt (lex_before f R) (sort_key f xs)"
proof (induction xs)
  case Nil
  then show ?case by simp
next
  case (Cons x xs)
  then show ?case by (simp add: insort_key_lex)
qed

lemma reverse_sort_desc:
  "sorted_wrt (\<lambda>a b. f b \<le> f a) (rev (sort_key f (rev xs)))"
proof -
  have "sorted (map f (sort_key f (rev xs)))" by simp
  then have "sorted_wrt (\<lambda>a b. f a \<le> f b) (sort_key f (rev xs))"
    by (simp add: sorted_map)
  then show ?thesis by (simp add: sorted_wrt_rev)
qed

lemma rank_items_sorted: "sorted_wrt ranked_before (rank_items items)"
proof -
  have "sorted_wrt (lex_before cat_priority (lex_before section_rank (\<lambda>a b. id_field b \<le> id_field a)))
          (rank_items items)"
    unfolding rank_items_def by (intro sort_key_lex reverse_sort_desc)
  moreover have "lex_before cat_priority (lex_before section_rank (\<lambda>a b. id_field b \<le> id_field a))
      = ranked_before"
    by (intro ext) (simp add: lex_before_def ranked_before_def)
  ultimately show ?thesis by simp
qed

lemma ranked_positions:
  assumes srt: "sorted_wrt ranked_before xs"
    and dist: "distinct (map id_field xs)"
    and i: "i < length xs" and j: "j < length xs" and ne: "i \<noteq> j"
  shows "(cat_priority (xs ! i) < cat_priority (xs ! j) \<longrightarrow> i < j) \<and>
         (cat_priority (xs ! i) = cat_priority (xs ! j) \<and>
          section_rank (xs ! i) < section_rank (xs ! j) \<longrightarrow> i < j) \<and>
         (cat_priority (xs ! i) = cat_priority (xs ! j) \<and>
          section_rank (xs ! i) = section_rank (xs ! j) \<longrightarrow>
            (i < j \<longleftrightarrow> id_field (xs ! j) \<le> id_field (xs ! i)))"
proof -
  have fwd: "ranked_before (xs ! a) (xs ! b)" if "a < b" "b < length xs" for a b
    using srt that by (simp add: sorted_wrt_iff_nth_less)
  have idne: "id_field (xs ! i) \<noteq> id_field (xs ! j)"
    using dist i j ne by (simp add: distinct_conv_nth)
  show ?thesis
  proof (cases "i < j")
    case True
    from fwd [OF True j] show ?thesis using True by (auto simp: ranked_before_def)
  next
    case False
    then have "j < i" using ne by simp
    from fwd [OF this i] show ?thesis using False idne by (auto simp: ranked_before_def)
  qed
qed

lemma distinct_ids_rank_items:
  "distinct (map id_field (rank_items items)) = distinct (map id_field items)"
proof -
  have "mset (map id_field (rank_items items)) = mset (map id_field items)"
    by (simp add: mset_rank_items)
  then show ?thesis by (rule mset_eq_imp_distinct_iff)
qed

lemma collect_distinct_ids: "distinct (map id_field (page_items (state_of (collect sp resp))))"
  using dedup_inv_collect [of sp resp] by (simp add: dedup_inv_def)


lemma yielded_simps [simp]: "yielded (Inl e) = []" "yielded (Inr ps) = ps"
  by (simp_all add: yielded_def)

lemma parse_cases:
  obtains (raised) err st where "collect sp resp = Inl (err, st)" "parse sp resp = (self st, Inl err)"
  | (returned) st where "collect sp resp = Inr st"
      "parse sp resp = (self st, Inr (map paper.truncate (rank_items (page_items st))))"
proof (cases "collect sp resp")
  case (Inl a)
  then show ?thesis using raised by (cases a) (simp add: parse_def)
next
  case (Inr st)
  then show ?thesis using returned by (simp add: parse_def)
qed

lemma parse_ids:
  "distinct (map id_field (yielded (snd (parse sp resp)))) \<and>
   id_field ` set (yielded (snd (parse sp resp))) \<inter> seen_ids sp = {} \<and>
   id_field ` set (yielded (snd (parse sp resp))) \<subseteq> seen_ids (fst (parse sp resp)) \<and>
   seen_ids sp \<subseteq> seen_ids (fst (parse sp resp))"
proof (cases rule: parse_cases [of sp resp])
  case (raised err st)
  then show ?thesis using dedup_inv_collect [of sp resp] by (simp add: dedup_inv_def)
next
  case (returned st)
  have "map id_field (map paper.truncate (rank_items (page_items st)))
      = map id_field (rank_items (page_items st))" by simp
  moreover have "id_field ` set (map paper.truncate (rank_items (page_items st)))
      = id_field ` set (page_items st)"
    by (simp add: image_image set_rank_items)
  ultimately show ?thesis
    using returned dedup_inv_collect [of sp resp]
    by (simp add: dedup_inv_def distinct_ids_rank_items comp_def)
qed

lemma run_ids:
  "distinct (map id_field (snd (run sp resps))) \<and>
   id_field ` set (snd (run sp resps)) \<inter> seen_ids sp = {} \<and>
   id_field ` set (snd (run sp resps)) \<subseteq> seen_ids (fst (run sp resps)) \<and>
   seen_ids sp \<subseteq> seen_ids (fst (run sp resps))"
proof (induction resps arbitrary: sp)
  case Nil
  then show ?case by simp
next
  case (Cons resp resps)
  obtain sp' out where p: "parse sp resp = (sp', out)" by (cases "parse sp resp")
  obtain sp'' rest where r: "run sp' resps = (sp'', rest)" by (cases "run sp' resps")
  from parse_ids [of sp resp] p
  have a: "distinct (map id_field (yielded out))"
    "id_field ` set (yielded out) \<inter> seen_ids sp = {}"
    "id_field ` set (yielded out) \<subseteq> seen_ids sp'"
    "seen_ids sp \<subseteq> seen_ids sp'" by simp_all
  from Cons.IH [of sp'] r
  have b: "distinct (map id_field rest)"
    "id_field ` set rest \<inter> seen_ids sp' = {}"
    "id_field ` set rest \<subseteq> seen_ids sp''"
    "seen_ids sp' \<subseteq> seen_ids sp''" by simp_all
  have "run sp (resp # resps) = (sp'', yielded out @ rest)" using p r by simp
  moreover have "id_field ` set (yielded out) \<inter> id_field ` set rest = {}"
    using a(3) b(2) by blast
  then have "distinct (map id_field (yielded out @ rest))" using a(1) b(1) by simp
  moreover have "id_field ` set (yielded out @ rest) \<inter> seen_ids sp = {}"
    using a(2,4) b(2) by (simp add: image_Un) blast
  moreover have "id_field ` set (yielded out @ rest) \<subseteq> seen_ids sp''"
    using a(3) b(3,4) by (simp add: image_Un)
  moreover have "seen_ids sp \<subseteq> seen_ids sp''" using a(4) b(4) by blast
  ultimately show ?case by simp
qed

lemma seen_ids_init: "seen_ids (init env) = {}"
  by (simp add: init_def Let_def)

subsection \<open>The identifier pattern\<close>

lemma abs_id_at_Some: "abs_id_at s = Some d \<Longrightarrow> is_arxiv_id d \<and> (\<exists>suf. s = ''/abs/'' @ d @ suf)"
proof -
  assume a: "abs_id_at s = Some d"
  then have p: "prefix ''/abs/'' s" and i: "is_arxiv_id (take 10 (drop 5 s))"
    and d: "d = take 10 (drop 5 s)"
    by (auto simp: abs_id_at_def split: if_splits)
  from p obtain t where t: "s = ''/abs/'' @ t" by (auto simp: prefix_def)
  then have "drop 5 s = t" by simp
  with d have "t = d @ drop 10 t" by simp
  with t have "s = ''/abs/'' @ d @ drop 10 t" by simp
  with i d show ?thesis by blast
qed

lemma abs_id_at_here: "is_arxiv_id d \<Longrightarrow> abs_id_at (''/abs/'' @ d @ suf) = Some d"
  by (simp add: abs_id_at_def is_arxiv_id_def)

lemma search_abs_id_Some:
  "search_abs_id s = Some d \<Longrightarrow> is_arxiv_id d \<and> (\<exists>pre suf. s = pre @ ''/abs/'' @ d @ suf)"
proof (induction s)
  case Nil
  then show ?case by simp
next
  case (Cons c cs)
  show ?case
  proof (cases "abs_id_at (c # cs)")
    case None
    with Cons obtain pre suf where "is_arxiv_id d" "cs = pre @ ''/abs/'' @ d @ suf" by auto
    then have "c # cs = (c # pre) @ ''/abs/'' @ d @ suf" by simp
    with \<open>is_arxiv_id d\<close> show ?thesis by blast
  next
    case (Some e)
    with Cons.prems have "abs_id_at (c # cs) = Some d" by simp
    from abs_id_at_Some [OF this] show ?thesis by (metis append_Nil)
  qed
qed

lemma search_abs_id_finds:
  "is_arxiv_id d \<Longrightarrow> search_abs_id (pre @ ''/abs/'' @ d @ suf) \<noteq> None"
proof (induction pre)
  case Nil
  then have "abs_id_at (''/abs/'' @ d @ suf) = Some d" by (rule abs_id_at_here)
  then show ?case by simp
next
  case (Cons c pre)
  then show ?case by (cases "abs_id_at (c # pre @ ''/abs/'' @ d @ suf)") simp_all
qed

lemma search_abs_id_None_iff:
  "search_abs_id s = None \<longleftrightarrow> \<not> (\<exists>pre d suf. s = pre @ ''/abs/'' @ d @ suf \<and> is_arxiv_id d)"
proof
  assume "search_abs_id s = None"
  then show "\<not> (\<exists>pre d suf. s = pre @ ''/abs/'' @ d @ suf \<and> is_arxiv_id d)"
    using search_abs_id_finds by blast
next
  assume n: "\<not> (\<exists>pre d suf. s = pre @ ''/abs/'' @ d @ suf \<and> is_arxiv_id d)"
  show "search_abs_id s = None"
  proof (cases "search_abs_id s")
    case None
    then show ?thesis .
  next
    case (Some d)
    from search_abs_id_Some [OF this] n show ?thesis by blast
  qed
qed

lemma yielded_parse_set:
  "set (yielded (snd (parse sp resp))) \<subseteq> paper.truncate ` set (page_items (state_of (collect sp resp)))"
proof (cases rule: parse_cases [of sp resp])
  case (raised err st)
  then show ?thesis by simp
next
  case (returned st)
  then show ?thesis by (simp add: set_rank_items)
qed

lemma yielded_item:
  assumes "r \<in> set (yielded (snd (parse sp resp)))"
  obtains it where "it \<in> set (page_items (state_of (collect sp resp)))" "r = paper.truncate it"
  using assms yielded_parse_set [of sp resp] by blast

lemma entry_href_no_anchor:
  assumes "\<forall>a \<in> set (anchors paper_dt). title a \<noteq> Some ''Abstract'' \<and>
             (\<forall>h. href a = Some h \<longrightarrow> \<not> str_contains ''/abs/'' h)"
  shows "entry_href paper_dt = None"
proof -
  have "filter (\<lambda>a. title a = Some ''Abstract'') (anchors paper_dt) = []"
    using assms by (auto simp: filter_empty_conv)
  then have one: "css_title_abstract paper_dt = None"
    by (simp add: css_title_abstract_def List.map_filter_simps)
  have "filter (str_contains ''/abs/'') (List.map_filter href (anchors paper_dt)) = []"
    using assms by (auto simp: filter_empty_conv List.map_filter_def)
  then have two: "css_href_abs paper_dt = None" by (simp add: css_href_abs_def)
  from one two show ?thesis by (simp add: entry_href_def falsy_def)
qed

lemma not_digit_chars: "\<not> is_digit CHR ''/''" "\<not> is_digit CHR ''a''" "CHR ''.'' \<noteq> CHR ''/''"
  by (simp_all add: is_digit_def less_eq_char_def)

lemma arxiv_id_nth:
  assumes "is_arxiv_id d" and "k < 10"
  shows "if k = 4 then d ! k = CHR ''.'' else is_digit (d ! k)"
proof -
  from assms(1) have len: "length d = 10" and a: "list_all is_digit (take 4 d)"
    and dot: "d ! 4 = CHR ''.''" and b: "list_all is_digit (drop 5 d)"
    by (simp_all add: is_arxiv_id_def)
  show ?thesis
  proof (cases "k < 4")
    case True
    with a len have "is_digit (take 4 d ! k)" by (simp add: list_all_length)
    with True show ?thesis by simp
  next
    case False
    show ?thesis
    proof (cases "k = 4")
      case True
      with dot show ?thesis by simp
    next
      case False
      with \<open>\<not> k < 4\<close> assms(2) have k5: "k - 5 < length (drop 5 d)" and k: "5 + (k - 5) = k"
        using len by simp_all
      from b have "\<forall>n<length (drop 5 d). is_digit (drop 5 d ! n)"
        by (simp only: list_all_length)
      with k5 have "is_digit (drop 5 d ! (k - 5))" by blast
      moreover have "drop 5 d ! (k - 5) = d ! (5 + (k - 5))"
        using len by (intro nth_drop) simp
      ultimately have "is_digit (d ! k)" using k by simp
      with False show ?thesis by simp
    qed
  qed
qed

lemma abs_id_at_after_prefix:
  assumes none: "abs_id_at p = None" and ne: "p \<noteq> []"
  shows "abs_id_at (p @ ''/abs/'' @ t) = None"
proof (rule ccontr)
  assume "abs_id_at (p @ ''/abs/'' @ t) \<noteq> None"
  then obtain d where "abs_id_at (p @ ''/abs/'' @ t) = Some d" by auto
  from abs_id_at_Some [OF this] obtain suf
    where d: "is_arxiv_id d" and eq: "p @ ''/abs/'' @ t = ''/abs/'' @ d @ suf" by blast
  define w where "w = ''/abs/'' @ d"
  have lw: "length w = 15" using d by (simp add: w_def is_arxiv_id_def)
  have eqw: "p @ ''/abs/'' @ t = w @ suf" using eq by (simp add: w_def)
  show False
  proof (cases "length p \<ge> 15")
    case True
    with eqw lw have "take 15 p = w" by (metis append_eq_append_conv_if append_take_drop_id
        length_take min.absorb2 take_all_iff take_append)
    then have "p = ''/abs/'' @ d @ drop 15 p" by (metis append.assoc append_take_drop_id w_def)
    then have "abs_id_at p = Some d" using d abs_id_at_here by metis
    with none show False by simp
  next
    case False
    define n where "n = length p"
    have n: "0 < n" "n < 15" using ne False by (simp_all add: n_def)
    have pn: "(p @ ''/abs/'' @ t) ! n = CHR ''/''" "(p @ ''/abs/'' @ t) ! Suc n = CHR ''a''"
      by (simp_all add: n_def nth_append)
    have "(w @ suf) ! n = w ! n" using n lw by (simp add: nth_append)
    with pn(1) have slash: "w ! n = CHR ''/''" by (simp only: eqw)
    have a: "w ! Suc n = CHR ''a''" if "Suc n < 15"
    proof -
      have "(w @ suf) ! Suc n = w ! Suc n" using that lw by (simp add: nth_append)
      with pn(2) show ?thesis by (simp only: eqw)
    qed
    have wd: "w ! k = d ! (k - 5)" if "5 \<le> k" for k
    proof -
      have "length ''/abs/'' = 5" by simp
      then show ?thesis unfolding w_def using that by (simp only: nth_append) simp
    qed
    show False
    proof (cases "n < 5")
      case True
      with n have "n = 1 \<or> n = 2 \<or> n = 3 \<or> n = 4" by arith
      then show False
      proof (elim disjE)
        assume "n = 4"
        with a have "w ! 5 = CHR ''a''" by simp
        then have "d ! 0 = CHR ''a''" using wd [of 5] by simp
        with arxiv_id_nth [OF d, of 0] show False by (simp add: not_digit_chars)
      qed (use slash in \<open>simp_all add: w_def\<close>)
    next
      case False
      then have k: "n - 5 < 10" "5 \<le> n" using n by simp_all
      from slash wd [OF k(2)] have "d ! (n - 5) = CHR ''/''" by simp
      with arxiv_id_nth [OF d k(1)] show False
        by (simp add: not_digit_chars split: if_splits)
    qed
  qed
qed

lemma search_abs_id_append:
  "search_abs_id p = None \<Longrightarrow> search_abs_id (p @ ''/abs/'' @ t) = search_abs_id (''/abs/'' @ t)"
proof (induction p)
  case Nil
  then show ?case by simp
next
  case (Cons c p)
  from Cons.prems have here: "abs_id_at (c # p) = None" and rest: "search_abs_id p = None"
    by (simp_all split: option.splits)
  have "abs_id_at ((c # p) @ ''/abs/'' @ t) = None"
    using here by (rule abs_id_at_after_prefix) simp
  then have "search_abs_id ((c # p) @ ''/abs/'' @ t) = search_abs_id (p @ ''/abs/'' @ t)"
    by simp
  with Cons.IH [OF rest] show ?case by simp
qed

lemma is_arxiv_id_parts:
  "length a = 4 \<Longrightarrow> list_all is_digit a \<Longrightarrow> length b = 5 \<Longrightarrow> list_all is_digit b \<Longrightarrow>
   is_arxiv_id (a @ ''.'' @ b)"
  by (simp add: is_arxiv_id_def nth_append)

subsection \<open>Headings and the blocks under them\<close>

lemma rank_kept_entry:
  assumes "rank_kept r st0 st"
  shows "rank_kept r st0 (state_of (process_entry resp sc cp st e))"
proof (cases rule: process_entry_cases [of resp sc cp st e])
  case same
  then show ?thesis using assms by simp
next
  case (emit h u i)
  from assms obtain new where n: "current_section_rank st = r"
    "page_items st = page_items st0 @ new" "\<forall>it \<in> set new. section_rank it = r"
    by (auto simp: rank_kept_def)
  let ?it = "new_item i u (snd e) cp (current_section_rank st)"
  let ?st' = "state_of (process_entry resp sc cp st e)"
  have items: "page_items ?st' = page_items st0 @ (new @ [?it])"
    and rank: "current_section_rank ?st' = r"
    using emit(5) n(1,2) by simp_all
  have "\<forall>it \<in> set (new @ [?it]). section_rank it = r" using n(1,3) by simp
  with items rank show ?thesis unfolding rank_kept_def by blast
qed

lemma rank_kept_section:
  assumes "rank_kept r st0 st" and "lower (tag sec) \<noteq> ''h3''"
  shows "rank_kept r st0 (state_of (process_section resp sc cp st sec))"
proof (cases rule: process_section_cases [of sec resp sc cp st])
  case heading
  with assms(2) show ?thesis by simp
next
  case ignored
  then show ?thesis using assms(1) by simp
next
  case block
  have "rank_kept r st0 (state_of (for_each (process_entry resp sc cp) st (zip (dts sec) (dds sec))))"
    by (rule for_each_invariant [where I = "rank_kept r st0"]) (simp_all add: assms(1) rank_kept_entry)
  then show ?thesis using block by simp
qed

lemma rank_kept_blocks:
  assumes "rank_kept r st0 st" and "\<forall>b \<in> set blocks. lower (tag b) \<noteq> ''h3''"
  shows "rank_kept r st0 (state_of (for_each (process_section resp sc cp) st blocks))"
  using assms
proof (induction blocks arbitrary: st)
  case Nil
  then show ?case by simp
next
  case (Cons b blocks)
  have step: "rank_kept r st0 (state_of (process_section resp sc cp st b))"
    using Cons.prems by (intro rank_kept_section) simp_all
  show ?case
  proof (cases "process_section resp sc cp st b")
    case (Inl raised)
    then show ?thesis using step by (cases raised) simp
  next
    case (Inr st1)
    with step have "rank_kept r st0 st1" by simp
    then have "rank_kept r st0 (state_of (for_each (process_section resp sc cp) st1 blocks))"
      using Cons.prems(2) by (intro Cons.IH) simp_all
    with Inr show ?thesis by simp
  qed
qed

subsection \<open>The subject codes\<close>

lemma code_chars:
  "\<not> is_prefix_char CHR ''.''" "\<not> is_prefix_char CHR ''(''" "\<not> is_upper CHR ''(''"
  by (simp_all add: is_prefix_char_def is_lower_def is_upper_def less_eq_char_def)

lemma is_subject_code_iff:
  "is_subject_code c \<longleftrightarrow>
     (\<exists>pre a b. c = pre @ [CHR ''.'', a, b] \<and> pre \<noteq> [] \<and> list_all is_prefix_char pre \<and>
        is_upper a \<and> is_upper b)"
proof
  assume "is_subject_code c"
  then obtain b a d rp where r: "rev c = b # a # d # rp" and p: "rp \<noteq> []" "list_all is_prefix_char rp"
    "d = CHR ''.''" "is_upper a" "is_upper b"
    by (auto simp: is_subject_code_def split: list.splits)
  from r have "c = rev (b # a # d # rp)" by (metis rev_rev_ident)
  then have "c = rev rp @ [CHR ''.'', a, b]" using p(3) by simp
  moreover have "list_all is_prefix_char (rev rp)" using p(2) by (simp add: list_all_iff)
  ultimately show "\<exists>pre a b. c = pre @ [CHR ''.'', a, b] \<and> pre \<noteq> [] \<and> list_all is_prefix_char pre \<and>
        is_upper a \<and> is_upper b" using p by auto
next
  assume "\<exists>pre a b. c = pre @ [CHR ''.'', a, b] \<and> pre \<noteq> [] \<and> list_all is_prefix_char pre \<and>
        is_upper a \<and> is_upper b"
  then show "is_subject_code c" by (auto simp: is_subject_code_def list_all_iff)
qed

lemma subject_code_no_paren: "is_subject_code c \<Longrightarrow> CHR ''('' \<notin> set c"
  using code_chars by (auto simp: is_subject_code_iff list_all_iff)

lemma subject_code_at_Some:
  assumes "subject_code_at s = Some (code, rem)"
  shows "s = ''('' @ code @ '')'' @ rem \<and> is_subject_code code"
proof -
  from assms obtain rest a b where s: "s = CHR ''('' # rest"
    and pre: "takeWhile is_prefix_char rest \<noteq> []"
    and dw: "dropWhile is_prefix_char rest = CHR ''.'' # a # b # CHR '')'' # rem"
    and up: "is_upper a" "is_upper b"
    and code: "code = takeWhile is_prefix_char rest @ [CHR ''.'', a, b]"
    by (auto simp: subject_code_at_def Let_def split: list.splits if_splits)
  have "rest = takeWhile is_prefix_char rest @ dropWhile is_prefix_char rest" by simp
  with dw code have "rest = code @ CHR '')'' # rem" by simp
  with s have "s = ''('' @ code @ '')'' @ rem" by simp
  moreover have "list_all is_prefix_char (takeWhile is_prefix_char rest)"
    by (simp add: list_all_iff) (meson set_takeWhileD)
  then have "is_subject_code code" using pre up code by (auto simp: is_subject_code_iff)
  ultimately show ?thesis by simp
qed

lemma subject_code_at_here:
  assumes "is_subject_code c"
  shows "subject_code_at (''('' @ c @ '')'' @ suf) = Some (c, suf)"
proof -
  from assms obtain pre a b where c: "c = pre @ [CHR ''.'', a, b]" and ne: "pre \<noteq> []"
    and all: "list_all is_prefix_char pre" and up: "is_upper a" "is_upper b"
    by (auto simp: is_subject_code_iff)
  let ?rest = "pre @ CHR ''.'' # a # b # CHR '')'' # suf"
  have tw: "takeWhile is_prefix_char ?rest = pre"
    using all code_chars(1) by (simp add: list_all_iff takeWhile_append2)
  have dw: "dropWhile is_prefix_char ?rest = CHR ''.'' # a # b # CHR '')'' # suf"
    using all code_chars(1) by (simp add: list_all_iff dropWhile_append2)
  have "''('' @ c @ '')'' @ suf = CHR ''('' # ?rest" using c by simp
  then show ?thesis using tw dw ne up c by (simp add: subject_code_at_def)
qed

lemma findall_codes_sound:
  "c \<in> set (findall_codes s) \<Longrightarrow> is_subject_code c \<and> sublist (''('' @ c @ '')'') s"
proof (induction s rule: findall_codes.induct)
  case 1
  then show ?case by simp
next
  case (2 x xs)
  show ?case
  proof (cases "subject_code_at (x # xs)")
    case None
    with 2 have "is_subject_code c \<and> sublist (''('' @ c @ '')'') xs" by simp
    then show ?thesis by (auto intro: sublist_Cons_right [THEN iffD2])
  next
    case (Some m)
    obtain code rem where m: "m = (code, rem)" by (cases m)
    from subject_code_at_Some [of "x # xs" code rem] Some m
    have s: "x # xs = ''('' @ code @ '')'' @ rem" and ok: "is_subject_code code" by simp_all
    from "2.prems" Some m have "c = code \<or> c \<in> set (findall_codes rem)" by simp
    then show ?thesis
    proof
      assume "c = code"
      then have "x # xs = [] @ (''('' @ c @ '')'') @ rem" using s by simp
      then have "sublist (''('' @ c @ '')'') (x # xs)" unfolding sublist_def by blast
      with ok \<open>c = code\<close> show ?thesis by simp
    next
      assume "c \<in> set (findall_codes rem)"
      with "2.IH"(2) [OF Some m [symmetric]] have ih: "is_subject_code c" "sublist (''('' @ c @ '')'') rem"
        by simp_all
      from ih(2) obtain ps ss where "rem = ps @ (''('' @ c @ '')'') @ ss" unfolding sublist_def by blast
      then have "x # xs = (''('' @ code @ '')'' @ ps) @ (''('' @ c @ '')'') @ ss" using s by simp
      then have "sublist (''('' @ c @ '')'') (x # xs)" unfolding sublist_def by blast
      with ih(1) show ?thesis by simp
    qed
  qed
qed

lemma findall_codes_complete:
  "is_subject_code c \<Longrightarrow> s = p @ ''('' @ c @ '')'' @ suf \<Longrightarrow> c \<in> set (findall_codes s)"
proof (induction s arbitrary: p rule: findall_codes.induct)
  case 1
  then show ?case by simp
next
  case (2 x xs)
  show ?case
  proof (cases p)
    case Nil
    with "2.prems" have "subject_code_at (x # xs) = Some (c, suf)"
      using subject_code_at_here [of c suf] by simp
    then show ?thesis by simp
  next
    case (Cons q p')
    with "2.prems"(2) have xs: "xs = p' @ ''('' @ c @ '')'' @ suf" by simp
    show ?thesis
    proof (cases "subject_code_at (x # xs)")
      case None
      with "2.IH"(1) [OF None "2.prems"(1) xs] show ?thesis by simp
    next
      case (Some m)
      obtain code rem where m: "m = (code, rem)" by (cases m)
      from subject_code_at_Some [of "x # xs" code rem] Some m
      have s: "x # xs = ''('' @ code @ '')'' @ rem" and ok: "is_subject_code code" by simp_all
      from s have "xs = code @ CHR '')'' # rem" by simp
      with xs have eq: "code @ (CHR '')'' # rem) = p' @ (CHR ''('' # c @ '')'' @ suf)" by simp
      have np: "CHR ''('' \<notin> set code" using ok by (rule subject_code_no_paren)
      from eq obtain us where
        "(code = p' @ us \<and> us @ CHR '')'' # rem = CHR ''('' # c @ '')'' @ suf) \<or>
         (code @ us = p' \<and> CHR '')'' # rem = us @ CHR ''('' # c @ '')'' @ suf)"
        by (auto simp: append_eq_append_conv2)
      then obtain p'' where rem: "rem = p'' @ ''('' @ c @ '')'' @ suf"
      proof (elim disjE conjE)
        assume a: "code = p' @ us" "us @ CHR '')'' # rem = CHR ''('' # c @ '')'' @ suf"
        then have "us \<noteq> []" by auto
        with a(2) have "hd us = CHR ''(''" by (cases us) auto
        with \<open>us \<noteq> []\<close> a(1) np have False by (cases us) auto
        then show ?thesis ..
      next
        assume b: "code @ us = p'" "CHR '')'' # rem = us @ CHR ''('' # c @ '')'' @ suf"
        then obtain us' where "us = CHR '')'' # us'" by (cases us) auto
        with b(2) have "rem = us' @ ''('' @ c @ '')'' @ suf" by simp
        then show ?thesis by (rule that)
      qed
      from "2.IH"(2) [OF Some m [symmetric] "2.prems"(1) rem]
      show ?thesis using Some m by simp
    qed
  qed
qed

subsection \<open>From an entry to the records of its page\<close>

lemma for_each_split:
  assumes "for_each body st (xs @ x # ys) = Inr st'"
  obtains s1 s2 where "for_each body st xs = Inr s1" "body s1 x = Inr s2"
    "for_each body s2 ys = Inr st'"
  using assms
proof (induction xs arbitrary: st thesis)
  case Nil
  then show ?case by (cases "body st x") auto
next
  case (Cons z zs)
  from Cons.prems(2) obtain t where t: "body st z = Inr t"
    and rest: "for_each body t (zs @ x # ys) = Inr st'"
    by (cases "body st z") auto
  from Cons.IH [OF _ rest] obtain s1 s2 where "for_each body t zs = Inr s1" "body s1 x = Inr s2"
    "for_each body s2 ys = Inr st'" by blast
  with t Cons.prems(1) show ?case by simp
qed

lemma seen_kept_entry:
  "i \<in> seen_ids (self st) \<Longrightarrow> i \<in> seen_ids (self (state_of (process_entry resp sc cp st e)))"
  by (cases rule: process_entry_cases [of resp sc cp st e]) simp_all

lemma seen_kept_section:
  assumes "i \<in> seen_ids (self st)"
  shows "i \<in> seen_ids (self (state_of (process_section resp sc cp st sec)))"
proof (cases rule: process_section_cases [of sec resp sc cp st])
  case heading
  then show ?thesis using assms by simp
next
  case ignored
  then show ?thesis using assms by simp
next
  case block
  have "i \<in> seen_ids (self (state_of (for_each (process_entry resp sc cp) st
          (zip (dts sec) (dds sec)))))"
    by (rule for_each_invariant [where I = "\<lambda>s. i \<in> seen_ids (self s)"])
       (simp_all add: assms seen_kept_entry)
  then show ?thesis using block by simp
qed

lemma entry_id_seen:
  assumes "entry_href paper_dt = Some h" and "urljoin resp h = Inr u"
    and "search_abs_id u = Some i"
    and "process_entry resp sc cp st (paper_dt, paper_dd) = Inr st'"
  shows "i \<in> seen_ids (self st')"
proof (cases "i \<in> seen_ids (self st)")
  case True
  with process_entry_skip_seen [OF assms(1-3) True, of sc cp paper_dd] assms(4) show ?thesis by simp
next
  case False
  with process_entry_emit [OF assms(1-3) False, of sc cp paper_dd] assms(4) show ?thesis by auto
qed

lemma collect_id_seen:
  assumes e: "entry_href paper_dt = Some h" "urljoin resp h = Inr u" "search_abs_id u = Some i"
    and sec: "sec \<in> set (dlpage resp)" "lower (tag sec) = ''dl''"
    and mem: "(paper_dt, paper_dd) \<in> set (zip (dts sec) (dds sec))"
    and ok: "collect sp resp = Inr st"
  shows "i \<in> seen_ids (self st)"
proof -
  let ?sc = "source_cat_of (url resp)" and ?cp = "cat_priority_of sp (url resp)"
  from sec(1) obtain before after where "dlpage resp = before @ sec # after"
    by (auto dest: split_list)
  with ok obtain s1 s2 where
    s2: "process_section resp ?sc ?cp s1 sec = Inr s2"
    and aft: "for_each (process_section resp ?sc ?cp) s2 after = Inr st"
    unfolding collect_def by (auto elim: for_each_split)
  from s2 sec(2) have blk: "for_each (process_entry resp ?sc ?cp) s1 (zip (dts sec) (dds sec)) = Inr s2"
    by (cases rule: process_section_cases [of sec resp ?sc ?cp s1]) simp_all
  from mem obtain es1 es2 where "zip (dts sec) (dds sec) = es1 @ (paper_dt, paper_dd) # es2"
    by (auto dest: split_list)
  with blk obtain t1 t2 where
    t2: "process_entry resp ?sc ?cp t1 (paper_dt, paper_dd) = Inr t2"
    and es2: "for_each (process_entry resp ?sc ?cp) t2 es2 = Inr s2"
    by (auto elim: for_each_split)
  from e t2 have "i \<in> seen_ids (self t2)" by (rule entry_id_seen)
  then have "i \<in> seen_ids (self (state_of (for_each (process_entry resp ?sc ?cp) t2 es2)))"
    by (intro for_each_invariant [where I = "\<lambda>s. i \<in> seen_ids (self s)"]) (simp_all add: seen_kept_entry)
  with es2 have "i \<in> seen_ids (self s2)" by simp
  then have "i \<in> seen_ids (self (state_of (for_each (process_section resp ?sc ?cp) s2 after)))"
    by (intro for_each_invariant [where I = "\<lambda>s. i \<in> seen_ids (self s)"]) (simp_all add: seen_kept_section)
  with aft show ?thesis by simp
qed

lemma page_emits_id:
  assumes e: "entry_href paper_dt = Some h" "urljoin resp h = Inr u" "search_abs_id u = Some i"
    and sec: "sec \<in> set (dlpage resp)" "lower (tag sec) = ''dl''"
    and mem: "(paper_dt, paper_dd) \<in> set (zip (dts sec) (dds sec))"
    and out: "snd (parse sp resp) = Inr out"
  shows "(\<exists>r \<in> set out. id_field r = i) \<longleftrightarrow> i \<notin> seen_ids sp"
proof (cases rule: parse_cases [of sp resp])
  case (raised err st)
  with out show ?thesis by simp
next
  case (returned st)
  with out have o: "out = map paper.truncate (rank_items (page_items st))" by simp
  then have ids: "id_field ` set out = id_field ` set (page_items st)"
    by (simp add: image_image set_rank_items)
  from dedup_inv_collect [of sp resp] returned(1)
  have inv: "id_field ` set (page_items st) \<inter> seen_ids sp = {}"
    "seen_ids (self st) = seen_ids sp \<union> id_field ` set (page_items st)"
    by (simp_all add: dedup_inv_def)
  have "i \<in> seen_ids (self st)" using e sec mem returned(1) by (rule collect_id_seen)
  with inv have "i \<in> id_field ` set (page_items st) \<longleftrightarrow> i \<notin> seen_ids sp" by blast
  with ids have "i \<in> id_field ` set out \<longleftrightarrow> i \<notin> seen_ids sp" by simp
  then show ?thesis by (auto simp: image_iff)
qed

section \<open>The claims\<close>

subsection \<open>Order of the records of a page\<close>

text \<open>
  Claim C1. Let \<open>items\<close> be the candidate records of a page after the three sorts; the
  emitted records are these with the two sort keys cut off, in the same order. For two
  different positions \<open>i\<close> and \<open>j\<close> of \<open>items\<close>: if the record at \<open>i\<close> has the smaller
  category priority it comes first; with equal category priorities, if it has the smaller
  section rank it comes first; and with both equal, it comes first if and only if its
  identifier is greater than or equal to the other one (identifiers descending).
\<close>

theorem sort_order:
  assumes "items = rank_items (page_items (state_of (collect sp resp)))"
    and "i < length items" and "j < length items" and "i \<noteq> j"
  shows "(\<forall>out. snd (parse sp resp) = Inr out \<longrightarrow> out = map paper.truncate items) \<and>
         (cat_priority (items ! i) < cat_priority (items ! j) \<longrightarrow> i < j) \<and>
         (cat_priority (items ! i) = cat_priority (items ! j) \<and>
          section_rank (items ! i) < section_rank (items ! j) \<longrightarrow> i < j) \<and>
         (cat_priority (items ! i) = cat_priority (items ! j) \<and>
          section_rank (items ! i) = section_rank (items ! j) \<longrightarrow>
            (i < j \<longleftrightarrow> id_field (items ! j) \<le> id_field (items ! i)))"
proof -
  have "sorted_wrt ranked_before items" using assms(1) by (simp add: rank_items_sorted)
  moreover have "distinct (map id_field items)"
    using assms(1) by (simp add: distinct_ids_rank_items collect_distinct_ids)
  ultimately have pos: "(cat_priority (items ! i) < cat_priority (items ! j) \<longrightarrow> i < j) \<and>
         (cat_priority (items ! i) = cat_priority (items ! j) \<and>
          section_rank (items ! i) < section_rank (items ! j) \<longrightarrow> i < j) \<and>
         (cat_priority (items ! i) = cat_priority (items ! j) \<and>
          section_rank (items ! i) = section_rank (items ! j) \<longrightarrow>
            (i < j \<longleftrightarrow> id_field (items ! j) \<le> id_field (items ! i)))"
    using assms(2-4) by (rule ranked_positions)
  have "\<forall>out. snd (parse sp resp) = Inr out \<longrightarrow> out = map paper.truncate items"
    using assms(1) by (auto simp: parse_def split: sum.splits prod.splits)
  with pos show ?thesis by simp
qed

theorem sort_order_witness:
  "(1::nat) < length (rank_items (page_items (state_of (collect (init None) example_page)))) \<and>
   (2::nat) < length (rank_items (page_items (state_of (collect (init None) example_page)))) \<and>
   map id_field (rank_items (page_items (state_of (collect (init None) example_page)))) =
     [''2406.00002'', ''2406.00001'', ''2406.00009'', ''2406.00003''] \<and>
   id_field (rank_items (page_items (state_of (collect (init None) example_page))) ! 1)
     \<le> id_field (rank_items (page_items (state_of (collect (init None) example_page))) ! 0) \<and>
   section_rank (rank_items (page_items (state_of (collect (init None) example_page))) ! 1)
     < section_rank (rank_items (page_items (state_of (collect (init None) example_page))) ! 2)"
proof -
  let ?items = "rank_items (page_items (state_of (collect (init None) example_page)))"
  have len: "(1::nat) < length ?items" "(2::nat) < length ?items" "(0::nat) < length ?items"
    by code_simp+
  have ids: "map id_field ?items = [''2406.00002'', ''2406.00001'', ''2406.00009'', ''2406.00003'']"
    by code_simp
  have keys: "cat_priority (?items ! 0) = cat_priority (?items ! 1)"
     "section_rank (?items ! 0) = section_rank (?items ! 1)"
     "section_rank (?items ! 1) < section_rank (?items ! 2)"
    by code_simp+
  from sort_order [where sp = "init None" and resp = example_page and i = 0 and j = 1,
      OF refl len(3) len(1)] keys
  have "id_field (?items ! 1) \<le> id_field (?items ! 0)" by simp
  with len ids keys show ?thesis by simp
qed

subsection \<open>Category priority\<close>

text \<open>
  Claim C5. The priority table gives \<^verbatim>\<open>math.QA\<close> the priority 0 and \<^verbatim>\<open>math.RT\<close> the
  priority 1 whatever the value of \<^verbatim>\<open>CATEGORIES\<close> (so whatever the order in which the
  categories were requested), and every other token the priority 99. A URL that the
  pattern \<^verbatim>\<open>/list/([^/]+)/new\<close> does not match gives the empty source category, and the
  page the priority 99; a URL that it matches gives the page the priority of the token.
\<close>

theorem cat_priority_fixed:
  "dict_get (CAT_PRIORITY (init env)) ''math.QA'' 99 = 0 \<and>
   dict_get (CAT_PRIORITY (init env)) ''math.RT'' 99 = 1 \<and>
   (c \<noteq> ''math.QA'' \<and> c \<noteq> ''math.RT'' \<longrightarrow> dict_get (CAT_PRIORITY (init env)) c 99 = 99) \<and>
   (search_list_new u = None \<longrightarrow> source_cat_of u = [] \<and> cat_priority_of (init env) u = 99) \<and>
   (search_list_new u = Some ''math.QA'' \<longrightarrow> cat_priority_of (init env) u = 0) \<and>
   (search_list_new u = Some ''math.RT'' \<longrightarrow> cat_priority_of (init env) u = 1) \<and>
   (search_list_new u = Some c \<and> c \<noteq> ''math.QA'' \<and> c \<noteq> ''math.RT'' \<longrightarrow>
      cat_priority_of (init env) u = 99)"
  by (simp add: init_def Let_def dict_get_def cat_priority_of_def source_cat_of_def)

theorem cat_priority_fixed_witness:
  "search_list_new ''https://arxiv.org/'' = None \<and>
   source_cat_of ''https://arxiv.org/'' = [] \<and>
   cat_priority_of (init (Some ''math.RT,math.QA'')) ''https://arxiv.org/'' = 99 \<and>
   dict_get (CAT_PRIORITY (init (Some ''math.RT,math.QA''))) ''cs.CV'' 99 = 99 \<and>
   start_urls (init (Some ''math.RT,math.QA'')) =
     [''https://arxiv.org/list/math.QA/new'', ''https://arxiv.org/list/math.RT/new'']"
  using cat_priority_fixed [of "Some ''math.RT,math.QA''" "''cs.CV''" "''https://arxiv.org/''"]
  by code_simp

subsection \<open>Deduplication across the pages of a run\<close>

text \<open>
  Claim C2. In a run that starts with the spider \<^verbatim>\<open>__init__\<close> builds, whose set of seen
  identifiers is empty, no identifier is on two emitted records, whatever the pages are
  (the same holds from any spider, and then no emitted identifier was in its set). An
  entry whose identifier is in the set already is skipped and changes nothing; otherwise
  the identifier is put into the set and the record with it is appended.
\<close>

theorem dedup_across_pages:
  "distinct (map id_field (snd (run (init env) resps))) \<and>
   seen_ids (init env) = {} \<and>
   distinct (map id_field (snd (run sp resps))) \<and>
   id_field ` set (snd (run sp resps)) \<inter> seen_ids sp = {} \<and>
   (entry_href paper_dt = Some h \<and> urljoin resp h = Inr u \<and> search_abs_id u = Some i \<longrightarrow>
      (if i \<in> seen_ids (self st)
       then process_entry resp sc cp st (paper_dt, paper_dd) = Inr st
       else (\<exists>st'. process_entry resp sc cp st (paper_dt, paper_dd) = Inr st' \<and>
               seen_ids (self st') = insert i (seen_ids (self st)) \<and>
               map id_field (page_items st') = map id_field (page_items st) @ [i])))"
proof -
  have "entry_href paper_dt = Some h \<and> urljoin resp h = Inr u \<and> search_abs_id u = Some i \<longrightarrow>
      (if i \<in> seen_ids (self st)
       then process_entry resp sc cp st (paper_dt, paper_dd) = Inr st
       else (\<exists>st'. process_entry resp sc cp st (paper_dt, paper_dd) = Inr st' \<and>
               seen_ids (self st') = insert i (seen_ids (self st)) \<and>
               map id_field (page_items st') = map id_field (page_items st) @ [i]))"
    by (simp add: process_entry_skip_seen process_entry_emit)
  then show ?thesis using run_ids [of "init env" resps] run_ids [of sp resps]
    by (simp add: seen_ids_init)
qed

theorem dedup_across_pages_witness:
  "map id_field (snd (run (init (Some ''math.QA,math.RT'')) [example_page, example_page_rt])) =
     [''2406.00002'', ''2406.00001'', ''2406.00009'', ''2406.00003'', ''2406.00005''] \<and>
   entry_href (fst (entry None (Some ''/abs/2406.00001'') [])) = Some ''/abs/2406.00001'' \<and>
   urljoin example_page ''/abs/2406.00001'' = Inr ''https://arxiv.org/abs/2406.00001'' \<and>
   search_abs_id ''https://arxiv.org/abs/2406.00001'' = Some ''2406.00001'' \<and>
   ''2406.00001'' \<in> seen_ids (self example_state) \<and>
   process_entry example_page ''math.QA'' 0 example_state
     (fst (entry None (Some ''/abs/2406.00001'') []), snd (entry None (Some ''/abs/2406.00001'') []))
     = Inr example_state"
proof -
  have ids: "map id_field (snd (run (init (Some ''math.QA,math.RT'')) [example_page, example_page_rt])) =
     [''2406.00002'', ''2406.00001'', ''2406.00009'', ''2406.00003'', ''2406.00005'']"
    by code_simp
  have h: "entry_href (fst (entry None (Some ''/abs/2406.00001'') [])) = Some ''/abs/2406.00001''"
    "urljoin example_page ''/abs/2406.00001'' = Inr ''https://arxiv.org/abs/2406.00001''"
    "search_abs_id ''https://arxiv.org/abs/2406.00001'' = Some ''2406.00001''"
    "''2406.00001'' \<in> seen_ids (self example_state)"
    by code_simp+
  from dedup_across_pages [where paper_dt = "fst (entry None (Some ''/abs/2406.00001'') [])"
      and h = "''/abs/2406.00001''" and resp = example_page
      and u = "''https://arxiv.org/abs/2406.00001''" and i = "''2406.00001''"
      and st = example_state and sc = "''math.QA''" and cp = 0
      and paper_dd = "snd (entry None (Some ''/abs/2406.00001'') [])"] h
  have "process_entry example_page ''math.QA'' 0 example_state
     (fst (entry None (Some ''/abs/2406.00001'') []), snd (entry None (Some ''/abs/2406.00001'') []))
     = Inr example_state" by simp
  with ids h show ?thesis by simp
qed

subsection \<open>Format of the identifier\<close>

text \<open>
  Claim C6. The identifier of every emitted record is four digits, a dot and five digits
  (so it matches \<^verbatim>\<open>^\d{4}\.\d{5}$\<close>). An entry whose absolute URL has no \<^verbatim>\<open>/abs/\<close>
  followed by four digits, a dot and five digits leaves the state as it is: no record.
\<close>

theorem id_format:
  "(r \<in> set (yielded (snd (parse sp resp))) \<longrightarrow> is_arxiv_id (id_field r)) \<and>
   (entry_href paper_dt = Some h \<and> urljoin resp h = Inr u \<and>
    \<not> (\<exists>pre d suf. u = pre @ ''/abs/'' @ d @ suf \<and> is_arxiv_id d) \<longrightarrow>
      process_entry resp sc cp st (paper_dt, paper_dd) = Inr st)"
proof -
  have "\<forall>it \<in> set (page_items (state_of (collect sp resp))). is_arxiv_id (id_field it)"
    by (rule items_inv_collect) (simp add: search_abs_id_Some)
  then have "r \<in> set (yielded (snd (parse sp resp))) \<longrightarrow> is_arxiv_id (id_field r)"
    by (auto elim!: yielded_item)
  moreover have "entry_href paper_dt = Some h \<and> urljoin resp h = Inr u \<and>
    \<not> (\<exists>pre d suf. u = pre @ ''/abs/'' @ d @ suf \<and> is_arxiv_id d) \<longrightarrow>
      process_entry resp sc cp st (paper_dt, paper_dd) = Inr st"
    using search_abs_id_None_iff [of u] by (auto intro: process_entry_skip_id)
  ultimately show ?thesis by simp
qed

theorem id_format_witness:
  "yielded (snd (parse (init None) example_page)) ! 0
     \<in> set (yielded (snd (parse (init None) example_page))) \<and>
   id_field (yielded (snd (parse (init None) example_page)) ! 0) = ''2406.00002'' \<and>
   is_arxiv_id (id_field (yielded (snd (parse (init None) example_page)) ! 0)) \<and>
   entry_href (fst (entry None (Some ''/abs/math/0601001'') [])) = Some ''/abs/math/0601001'' \<and>
   urljoin example_page ''/abs/math/0601001'' = Inr ''https://arxiv.org/abs/math/0601001'' \<and>
   process_entry example_page ''math.QA'' 0 example_state
     (fst (entry None (Some ''/abs/math/0601001'') []), snd (entry None (Some ''/abs/math/0601001'') []))
     = Inr example_state"
proof -
  let ?out = "yielded (snd (parse (init None) example_page))"
  have len: "0 < length ?out" by code_simp
  then have mem: "?out ! 0 \<in> set ?out" by (rule nth_mem)
  have first: "id_field (?out ! 0) = ''2406.00002''" by code_simp
  have h: "entry_href (fst (entry None (Some ''/abs/math/0601001'') [])) = Some ''/abs/math/0601001''"
    "urljoin example_page ''/abs/math/0601001'' = Inr ''https://arxiv.org/abs/math/0601001''"
    by code_simp+
  have "search_abs_id ''https://arxiv.org/abs/math/0601001'' = None" by code_simp
  then have no: "\<not> (\<exists>pre d suf. ''https://arxiv.org/abs/math/0601001'' = pre @ ''/abs/'' @ d @ suf \<and>
      is_arxiv_id d)"
    using search_abs_id_None_iff [of "''https://arxiv.org/abs/math/0601001''"] by blast
  note t = id_format [where r = "?out ! 0" and sp = "init None" and resp = example_page
      and paper_dt = "fst (entry None (Some ''/abs/math/0601001'') [])"
      and h = "''/abs/math/0601001''" and u = "''https://arxiv.org/abs/math/0601001''"
      and sc = "''math.QA''" and cp = 0 and st = example_state
      and paper_dd = "snd (entry None (Some ''/abs/math/0601001'') [])"]
  from t mem have "is_arxiv_id (id_field (?out ! 0))" by blast
  moreover from t h no have "process_entry example_page ''math.QA'' 0 example_state
     (fst (entry None (Some ''/abs/math/0601001'') []), snd (entry None (Some ''/abs/math/0601001'') []))
     = Inr example_state" by blast
  ultimately show ?thesis using mem first h by simp
qed

subsection \<open>The \<^verbatim>\<open>pdf\<close> field\<close>

text \<open>
  Claim C3 says that \<^verbatim>\<open>pdf\<close> is \<^verbatim>\<open>abs\<close> with the first \<^verbatim>\<open>/abs/\<close> replaced and nothing
  else changed. \<^verbatim>\<open>str.replace\<close> without a count replaces every occurrence: for the link
  \<^verbatim>\<open>https://arxiv.org/abs/x/abs/2406.01234\<close> the record has
  \<^verbatim>\<open>https://arxiv.org/pdf/x/pdf/2406.01234\<close>, and replacing the first occurrence only
  gives \<^verbatim>\<open>https://arxiv.org/pdf/x/abs/2406.01234\<close>.
\<close>

theorem pdf_first_occurrence_counterexample:
  "map abs_field (yielded (snd (parse (init None) example_page_twice))) =
     [''https://arxiv.org/abs/x/abs/2406.01234''] \<and>
   map pdf_field (yielded (snd (parse (init None) example_page_twice))) =
     [''https://arxiv.org/pdf/x/pdf/2406.01234''] \<and>
   replace_first ''/abs/'' ''/pdf/'' ''https://arxiv.org/abs/x/abs/2406.01234'' =
     ''https://arxiv.org/pdf/x/abs/2406.01234'' \<and>
   ''https://arxiv.org/pdf/x/pdf/2406.01234'' \<noteq> ''https://arxiv.org/pdf/x/abs/2406.01234''"
  by code_simp

text \<open>
  Claim C3, amended. For every emitted record, \<^verbatim>\<open>pdf\<close> is \<^verbatim>\<open>abs\<close> with every occurrence
  of \<^verbatim>\<open>/abs/\<close> (found from left to right, without overlap) replaced by \<^verbatim>\<open>/pdf/\<close>, and
  nothing else changed.
\<close>

theorem pdf_all_occurrences:
  "r \<in> set (yielded (snd (parse sp resp))) \<Longrightarrow>
   pdf_field r = replace ''/abs/'' ''/pdf/'' (abs_field r)"
proof -
  assume r: "r \<in> set (yielded (snd (parse sp resp)))"
  have "\<forall>it \<in> set (page_items (state_of (collect sp resp))).
          pdf_field it = replace ''/abs/'' ''/pdf/'' (abs_field it)"
    by (rule items_inv_collect) simp
  with r show ?thesis by (auto elim!: yielded_item)
qed

theorem pdf_all_occurrences_witness:
  "yielded (snd (parse (init None) example_page_twice)) ! 0
     \<in> set (yielded (snd (parse (init None) example_page_twice))) \<and>
   abs_field (yielded (snd (parse (init None) example_page_twice)) ! 0) =
     ''https://arxiv.org/abs/x/abs/2406.01234'' \<and>
   pdf_field (yielded (snd (parse (init None) example_page_twice)) ! 0) =
     ''https://arxiv.org/pdf/x/pdf/2406.01234''"
proof -
  let ?out = "yielded (snd (parse (init None) example_page_twice))"
  have "0 < length ?out" by code_simp
  then have mem: "?out ! 0 \<in> set ?out" by (rule nth_mem)
  have a: "abs_field (?out ! 0) = ''https://arxiv.org/abs/x/abs/2406.01234''" by code_simp
  have "replace ''/abs/'' ''/pdf/'' ''https://arxiv.org/abs/x/abs/2406.01234'' =
      ''https://arxiv.org/pdf/x/pdf/2406.01234''" by code_simp
  with pdf_all_occurrences [OF mem] a mem show ?thesis by simp
qed

subsection \<open>Entries without a link or without an identifier\<close>

text \<open>
  Claim C8. An entry none of whose anchors has the title \<^verbatim>\<open>Abstract\<close> or an \<^verbatim>\<open>href\<close>
  that contains \<^verbatim>\<open>/abs/\<close>, and an entry whose absolute URL the identifier pattern does
  not match, end in \<open>Inr st\<close> with the state they started in: no record, the set of seen
  identifiers unchanged, no exception.
\<close>

theorem malformed_entry_dropped:
  "((\<forall>a \<in> set (anchors paper_dt). title a \<noteq> Some ''Abstract'' \<and>
       (\<forall>h. href a = Some h \<longrightarrow> \<not> str_contains ''/abs/'' h)) \<longrightarrow>
      process_entry resp sc cp st (paper_dt, paper_dd) = Inr st) \<and>
   (entry_href paper_dt = Some h \<and> urljoin resp h = Inr u \<and> search_abs_id u = None \<longrightarrow>
      process_entry resp sc cp st (paper_dt, paper_dd) = Inr st)"
  by (auto intro: process_entry_skip_href process_entry_skip_id dest: entry_href_no_anchor)

theorem malformed_entry_dropped_witness:
  "process_entry example_page ''math.QA'' 0 example_state
     (fst (entry None None []), snd (entry None None [])) = Inr example_state \<and>
   entry_href (fst (entry None (Some ''/abs/math/0601001'') [])) = Some ''/abs/math/0601001'' \<and>
   urljoin example_page ''/abs/math/0601001'' = Inr ''https://arxiv.org/abs/math/0601001'' \<and>
   search_abs_id ''https://arxiv.org/abs/math/0601001'' = None \<and>
   process_entry example_page ''math.QA'' 0 example_state
     (fst (entry None (Some ''/abs/math/0601001'') []), snd (entry None (Some ''/abs/math/0601001'') []))
     = Inr example_state"
proof -
  have none: "\<forall>a \<in> set (anchors (fst (entry None None []))). title a \<noteq> Some ''Abstract'' \<and>
       (\<forall>h. href a = Some h \<longrightarrow> \<not> str_contains ''/abs/'' h)"
    by (simp add: entry_def)
  have h: "entry_href (fst (entry None (Some ''/abs/math/0601001'') [])) = Some ''/abs/math/0601001''"
    "urljoin example_page ''/abs/math/0601001'' = Inr ''https://arxiv.org/abs/math/0601001''"
    "search_abs_id ''https://arxiv.org/abs/math/0601001'' = None"
    by code_simp+
  from malformed_entry_dropped [where paper_dt = "fst (entry None None [])"
      and resp = example_page and sc = "''math.QA''" and cp = 0 and st = example_state
      and paper_dd = "snd (entry None None [])"] none
  have a: "process_entry example_page ''math.QA'' 0 example_state
     (fst (entry None None []), snd (entry None None [])) = Inr example_state" by blast
  from malformed_entry_dropped [where paper_dt = "fst (entry None (Some ''/abs/math/0601001'') [])"
      and h = "''/abs/math/0601001''" and u = "''https://arxiv.org/abs/math/0601001''"
      and resp = example_page and sc = "''math.QA''" and cp = 0 and st = example_state
      and paper_dd = "snd (entry None (Some ''/abs/math/0601001'') [])"] h
  have b: "process_entry example_page ''math.QA'' 0 example_state
     (fst (entry None (Some ''/abs/math/0601001'') []), snd (entry None (Some ''/abs/math/0601001'') []))
     = Inr example_state" by blast
  from a b h show ?thesis by simp
qed

subsection \<open>Entries without subject text\<close>

text \<open>
  Claim C9. An entry that has a link, an identifier and is not a duplicate appends one
  record, whatever its subject text. When the subject text is empty the categories of the
  record are empty and the logger receives one warning, which holds the identifier and the
  source category; when it is not empty the logger receives nothing.
\<close>

theorem empty_subjects_warning:
  assumes "entry_href paper_dt = Some h" and "urljoin resp h = Inr u"
    and "search_abs_id u = Some i" and "i \<notin> seen_ids (self st)"
  shows "\<exists>st' it. process_entry resp sc cp st (paper_dt, paper_dd) = Inr st' \<and>
           page_items st' = page_items st @ [it] \<and> id_field it = i \<and>
           categories it = set (findall_codes (subjects_text_of paper_dd)) \<and>
           (subjects_text_of paper_dd = [] \<longrightarrow>
              categories it = {} \<and>
              warnings (self st') = warnings (self st) @
                [''Could not extract categories for paper '' @ i @ '', source page = '' @ sc]) \<and>
           (subjects_text_of paper_dd \<noteq> [] \<longrightarrow> warnings (self st') = warnings (self st))"
  using process_entry_emit [OF assms, where sc = sc and cp = cp and paper_dd = paper_dd]
  by (simp add: warning_line_def)

theorem empty_subjects_warning_witness:
  "entry_href (fst (entry None (Some ''/abs/2406.00002'') [[CHR 0xA0], '' ''])) = Some ''/abs/2406.00002'' \<and>
   urljoin example_page ''/abs/2406.00002'' = Inr ''https://arxiv.org/abs/2406.00002'' \<and>
   search_abs_id ''https://arxiv.org/abs/2406.00002'' = Some ''2406.00002'' \<and>
   ''2406.00002'' \<notin> seen_ids (self example_state) \<and>
   subjects_text_of (snd (entry None (Some ''/abs/2406.00002'') [[CHR 0xA0], '' ''])) = [] \<and>
   (\<exists>st' it. process_entry example_page ''math.QA'' 0 example_state
          (fst (entry None (Some ''/abs/2406.00002'') [[CHR 0xA0], '' '']),
           snd (entry None (Some ''/abs/2406.00002'') [[CHR 0xA0], '' '']))
          = Inr st' \<and>
        page_items st' = page_items example_state @ [it] \<and> id_field it = ''2406.00002'' \<and>
        categories it = {} \<and>
        warnings (self st') = warnings (self example_state) @
          [''Could not extract categories for paper 2406.00002, source page = math.QA''])"
proof -
  let ?e = "entry None (Some ''/abs/2406.00002'') [[CHR 0xA0], '' '']"
  have h: "entry_href (fst ?e) = Some ''/abs/2406.00002''"
    "urljoin example_page ''/abs/2406.00002'' = Inr ''https://arxiv.org/abs/2406.00002''"
    "search_abs_id ''https://arxiv.org/abs/2406.00002'' = Some ''2406.00002''"
    "''2406.00002'' \<notin> seen_ids (self example_state)"
    by code_simp+
  have e: "subjects_text_of (snd ?e) = []" by code_simp
  from empty_subjects_warning [OF h, of "''math.QA''" 0 "snd ?e"] e
  have "\<exists>st' it. process_entry example_page ''math.QA'' 0 example_state (fst ?e, snd ?e) = Inr st' \<and>
        page_items st' = page_items example_state @ [it] \<and> id_field it = ''2406.00002'' \<and>
        categories it = {} \<and>
        warnings (self st') = warnings (self example_state) @
          [''Could not extract categories for paper 2406.00002, source page = math.QA'']"
    by auto
  with h e show ?thesis by simp
qed

subsection \<open>The identifier pattern has no right anchor\<close>

text \<open>
  Claim C10 says that an entry whose absolute URL has \<^verbatim>\<open>/abs/\<close>, four digits, a dot and
  more than five digits is not skipped, and that a record is emitted whose identifier is
  the four digits, the dot and the first five of the digits that follow. The pattern does
  match such a URL, but two things stand between the match and the record. The gate of
  lines 97 and 98 follows: on the example page the link \<^verbatim>\<open>/abs/2406.000031\<close> comes after the
  link \<^verbatim>\<open>/abs/2406.00003\<close>, has the same identifier and is skipped, so the page yields the
  record of the first link only. And the search is leftmost: in
  \<^verbatim>\<open>https://arxiv.org/abs/1111.11111/abs/2406.000031\<close> the identifier is \<^verbatim>\<open>1111.11111\<close>.
\<close>

theorem id_truncated_counterexample:
  "search_abs_id ''https://arxiv.org/abs/2406.000031'' = Some ''2406.00003'' \<and>
   map abs_field (yielded (snd (parse (init None) example_page_collide))) =
     [''https://arxiv.org/abs/2406.00003''] \<and>
   map id_field (yielded (snd (parse (init None) example_page_collide))) = [''2406.00003''] \<and>
   search_abs_id ''https://arxiv.org/abs/1111.11111/abs/2406.000031'' = Some ''1111.11111''"
  by code_simp

text \<open>
  Claim C10, amended. Let the absolute URL of an entry be \<open>pre\<close>, \<^verbatim>\<open>/abs/\<close>, four digits
  \<open>a\<close>, a dot, five digits \<open>b\<close>, one more digit and any rest. The pattern matches the URL,
  so the entry is not skipped at the pattern step, and the identifier is well formed. When
  the pattern matches nowhere in \<open>pre\<close>, the identifier is \<open>a\<close>, the dot and \<open>b\<close>: the
  first five of the digits after the dot. The entry is then skipped when that identifier
  is in the set of seen identifiers already, and otherwise appends a record with that
  identifier and the URL. A page that holds such an entry in a \<^verbatim>\<open>dl\<close> block, and whose
  \<^verbatim>\<open>parse\<close> returns, yields a record with that identifier if and only if the identifier
  was not in the set when the page began.
\<close>

theorem id_truncated:
  assumes "length a = 4" and "list_all is_digit a" and "length b = 5" and "list_all is_digit b"
    and "is_digit c"
    and "u = pre @ ''/abs/'' @ a @ ''.'' @ b @ c # rest"
    and "entry_href paper_dt = Some h" and "urljoin resp h = Inr u"
  shows "(\<exists>d. search_abs_id u = Some d \<and> is_arxiv_id d) \<and>
    (search_abs_id pre = None \<longrightarrow>
       search_abs_id u = Some (a @ ''.'' @ b) \<and>
       (a @ ''.'' @ b \<in> seen_ids (self st) \<longrightarrow>
          process_entry resp sc cp st (paper_dt, paper_dd) = Inr st) \<and>
       (a @ ''.'' @ b \<notin> seen_ids (self st) \<longrightarrow>
          (\<exists>st' it. process_entry resp sc cp st (paper_dt, paper_dd) = Inr st' \<and>
             page_items st' = page_items st @ [it] \<and>
             id_field it = a @ ''.'' @ b \<and> abs_field it = u)) \<and>
       (sec \<in> set (dlpage resp) \<and> lower (tag sec) = ''dl'' \<and>
        (paper_dt, paper_dd) \<in> set (zip (dts sec) (dds sec)) \<and>
        snd (parse sp resp) = Inr out \<longrightarrow>
          ((\<exists>r \<in> set out. id_field r = a @ ''.'' @ b) \<longleftrightarrow> a @ ''.'' @ b \<notin> seen_ids sp)))"
proof -
  have d: "is_arxiv_id (a @ ''.'' @ b)" using assms(1-4) by (rule is_arxiv_id_parts)
  have u: "u = pre @ ''/abs/'' @ (a @ ''.'' @ b) @ c # rest" using assms(6) by simp
  from search_abs_id_finds [OF d, of pre "c # rest"] u
  obtain e where e: "search_abs_id u = Some e" by auto
  with search_abs_id_Some [OF e] have first: "\<exists>d. search_abs_id u = Some d \<and> is_arxiv_id d"
    by blast
  have second: "search_abs_id u = Some (a @ ''.'' @ b) \<and>
       (a @ ''.'' @ b \<in> seen_ids (self st) \<longrightarrow>
          process_entry resp sc cp st (paper_dt, paper_dd) = Inr st) \<and>
       (a @ ''.'' @ b \<notin> seen_ids (self st) \<longrightarrow>
          (\<exists>st' it. process_entry resp sc cp st (paper_dt, paper_dd) = Inr st' \<and>
             page_items st' = page_items st @ [it] \<and>
             id_field it = a @ ''.'' @ b \<and> abs_field it = u)) \<and>
       (sec \<in> set (dlpage resp) \<and> lower (tag sec) = ''dl'' \<and>
        (paper_dt, paper_dd) \<in> set (zip (dts sec) (dds sec)) \<and>
        snd (parse sp resp) = Inr out \<longrightarrow>
          ((\<exists>r \<in> set out. id_field r = a @ ''.'' @ b) \<longleftrightarrow> a @ ''.'' @ b \<notin> seen_ids sp))"
    if none: "search_abs_id pre = None"
  proof -
    have "search_abs_id u = search_abs_id (''/abs/'' @ (a @ ''.'' @ b) @ c # rest)"
      using search_abs_id_append [OF none] u by simp
    also have "\<dots> = Some (a @ ''.'' @ b)"
      using abs_id_at_here [OF d, of "c # rest"] by simp
    finally have s: "search_abs_id u = Some (a @ ''.'' @ b)" .
    have skip: "process_entry resp sc cp st (paper_dt, paper_dd) = Inr st"
      if "a @ ''.'' @ b \<in> seen_ids (self st)"
      using process_entry_skip_seen [OF assms(7,8) s that] .
    have emit: "\<exists>st' it. process_entry resp sc cp st (paper_dt, paper_dd) = Inr st' \<and>
             page_items st' = page_items st @ [it] \<and>
             id_field it = a @ ''.'' @ b \<and> abs_field it = u"
      if "a @ ''.'' @ b \<notin> seen_ids (self st)"
      using process_entry_emit [OF assms(7,8) s that, where sc = sc and cp = cp and paper_dd = paper_dd]
      by simp
    have page: "(\<exists>r \<in> set out. id_field r = a @ ''.'' @ b) \<longleftrightarrow> a @ ''.'' @ b \<notin> seen_ids sp"
      if "sec \<in> set (dlpage resp)" "lower (tag sec) = ''dl''"
        "(paper_dt, paper_dd) \<in> set (zip (dts sec) (dds sec))" "snd (parse sp resp) = Inr out"
      using assms(7,8) s that by (rule page_emits_id)
    from s skip emit page show ?thesis by blast
  qed
  from first second show ?thesis by blast
qed

theorem id_truncated_witness:
  "search_abs_id ''https://arxiv.org'' = None \<and>
   search_abs_id ''https://arxiv.org/abs/2406.000031'' = Some ''2406.00003'' \<and>
   ''2406.00003'' \<notin> seen_ids (init None) \<and>
   snd (parse (init None) example_page) = Inr (projr (snd (parse (init None) example_page))) \<and>
   (\<exists>r \<in> set (projr (snd (parse (init None) example_page))). id_field r = ''2406.00003'') \<and>
   ''2406.00003'' \<in> seen_ids (self (example_state\<lparr>self := (init None)\<lparr>seen_ids := {''2406.00003''}\<rparr>\<rparr>)) \<and>
   process_entry example_page ''math.QA'' 0
     (example_state\<lparr>self := (init None)\<lparr>seen_ids := {''2406.00003''}\<rparr>\<rparr>)
     (fst (entry (Some ''Abstract'') (Some ''https://arxiv.org/abs/2406.000031'') [''(hep-th.XX)'']),
      snd (entry (Some ''Abstract'') (Some ''https://arxiv.org/abs/2406.000031'') [''(hep-th.XX)'']))
     = Inr (example_state\<lparr>self := (init None)\<lparr>seen_ids := {''2406.00003''}\<rparr>\<rparr>)"
proof -
  let ?e = "entry (Some ''Abstract'') (Some ''https://arxiv.org/abs/2406.000031'') [''(hep-th.XX)'']"
  let ?sec = "block [entry None (Some ''/abs/math/0601001'') [], entry None None [], ?e]"
  let ?st = "example_state\<lparr>self := (init None)\<lparr>seen_ids := {''2406.00003''}\<rparr>\<rparr>"
  let ?out = "projr (snd (parse (init None) example_page))"
  have hyp: "length ''2406'' = 4" "list_all is_digit ''2406''" "length ''00003'' = 5"
    "list_all is_digit ''00003''" "is_digit CHR ''1''"
    by code_simp+
  have u: "''https://arxiv.org/abs/2406.000031'' =
      ''https://arxiv.org'' @ ''/abs/'' @ ''2406'' @ ''.'' @ ''00003'' @ CHR ''1'' # []" by simp
  have e: "entry_href (fst ?e) = Some ''https://arxiv.org/abs/2406.000031''"
    "urljoin example_page ''https://arxiv.org/abs/2406.000031'' = Inr ''https://arxiv.org/abs/2406.000031''"
    by code_simp+
  have none: "search_abs_id ''https://arxiv.org'' = None" by code_simp
  have fresh: "''2406.00003'' \<notin> seen_ids (init None)" by code_simp
  have seen: "''2406.00003'' \<in> seen_ids (self ?st)" by code_simp
  have sec: "?sec \<in> set (dlpage example_page)" by (simp add: example_page_def)
  have "lower ''dl'' = ''dl''" by code_simp
  then have tag: "lower (tag ?sec) = ''dl''" by (simp add: block_def)
  have mem: "(fst ?e, snd ?e) \<in> set (zip (dts ?sec) (dds ?sec))" by (simp add: block_def zip_map_fst_snd)
  have "\<not> isl (snd (parse (init None) example_page))" by code_simp
  then have out: "snd (parse (init None) example_page) = Inr ?out" by simp
  note t = id_truncated [OF hyp u e, where st = ?st and sc = "''math.QA''" and cp = 0 and paper_dd = "snd ?e"
      and sec = ?sec and sp = "init None" and out = ?out]
  from t none have s: "search_abs_id ''https://arxiv.org/abs/2406.000031'' = Some ''2406.00003''"
    by simp
  from t none seen have skip: "process_entry example_page ''math.QA'' 0 ?st (fst ?e, snd ?e) = Inr ?st"
    by simp
  from t none sec tag mem out fresh have page: "\<exists>r \<in> set ?out. id_field r = ''2406.00003''"
    by simp
  from none s fresh out page seen skip show ?thesis by blast
qed

subsection \<open>The rank a heading sets\<close>

text \<open>
  Claim C4 says that the heading \<^verbatim>\<open>Cross-lists for Mon, 3 Jun 24\<close> sets the rank 1. The
  heading is classified by the substrings \<^verbatim>\<open>new submission\<close>, \<^verbatim>\<open>cross submission\<close> and
  \<^verbatim>\<open>replacement\<close> of its text in lower case; this text has none of them, so the rank is 3,
  and the record under it on the example page carries 3.
\<close>

theorem cross_heading_counterexample:
  "heading_rank [''Cross-lists for Mon, 3 Jun 24''] = 3 \<and>
   map id_field (page_items (state_of (collect (init None) example_page))) =
     [''2406.00001'', ''2406.00002'', ''2406.00009'', ''2406.00003''] \<and>
   map section_rank (page_items (state_of (collect (init None) example_page))) = [0, 0, 1, 3]"
  by code_simp

text \<open>
  Claim C4, amended. A heading whose text, stripped and in lower case, contains
  \<^verbatim>\<open>cross submission\<close> and not \<^verbatim>\<open>new submission\<close> (such as
  \<^verbatim>\<open>Cross submissions (showing 1 of 1 entries)\<close>) sets the rank 1, and every record appended
  by the elements after it, up to the next heading, carries the section rank 1. The
  heading \<^verbatim>\<open>Cross-lists for Mon, 3 Jun 24\<close> sets the rank 3.
\<close>

theorem cross_heading_rank:
  assumes "lower (tag h) = ''h3''"
    and "str_contains ''cross submission'' (lower (strip (concat (text_nodes h))))"
    and "\<not> str_contains ''new submission'' (lower (strip (concat (text_nodes h))))"
    and "\<forall>b \<in> set blocks. lower (tag b) \<noteq> ''h3''"
    and "st' = state_of (for_each (process_section resp sc cp) st (h # blocks))"
  shows "current_section_rank st' = 1 \<and>
         (\<exists>new. page_items st' = page_items st @ new \<and> (\<forall>it \<in> set new. section_rank it = 1)) \<and>
         heading_rank [''Cross-lists for Mon, 3 Jun 24''] = 3"
proof -
  have r: "heading_rank (text_nodes h) = 1" using assms(2,3) by (simp add: heading_rank_def Let_def)
  have hd: "process_section resp sc cp st h = Inr (st\<lparr>current_section_rank := 1\<rparr>)"
    using assms(1) r by (simp add: process_section_def Let_def)
  have "rank_kept 1 (st\<lparr>current_section_rank := 1\<rparr>) (st\<lparr>current_section_rank := 1\<rparr>)"
    by (simp add: rank_kept_def)
  then have "rank_kept 1 (st\<lparr>current_section_rank := 1\<rparr>)
      (state_of (for_each (process_section resp sc cp) (st\<lparr>current_section_rank := 1\<rparr>) blocks))"
    using assms(4) by (rule rank_kept_blocks)
  then have "rank_kept 1 (st\<lparr>current_section_rank := 1\<rparr>) st'"
    using assms(5) hd by simp
  moreover have "heading_rank [''Cross-lists for Mon, 3 Jun 24''] = 3" by code_simp
  ultimately show ?thesis by (simp add: rank_kept_def)
qed

theorem cross_heading_rank_witness:
  "lower (tag (heading ''Cross submissions (showing 1 of 1 entries)'')) = ''h3'' \<and>
   str_contains ''cross submission''
     (lower (strip (concat (text_nodes (heading ''Cross submissions (showing 1 of 1 entries)''))))) \<and>
   \<not> str_contains ''new submission''
     (lower (strip (concat (text_nodes (heading ''Cross submissions (showing 1 of 1 entries)''))))) \<and>
   current_section_rank (state_of (for_each (process_section example_page ''math.QA'' 0) example_state
      [heading ''Cross submissions (showing 1 of 1 entries)'',
       block [entry (Some ''Abstract'') (Some ''/abs/2406.00009'') [''Computer Vision (cs.CV)'']]])) = 1 \<and>
   map section_rank (page_items (state_of (for_each (process_section example_page ''math.QA'' 0)
      example_state
      [heading ''Cross submissions (showing 1 of 1 entries)'',
       block [entry (Some ''Abstract'') (Some ''/abs/2406.00009'') [''Computer Vision (cs.CV)'']]])))
     = [1]"
proof -
  let ?h = "heading ''Cross submissions (showing 1 of 1 entries)''"
  let ?bs = "[block [entry (Some ''Abstract'') (Some ''/abs/2406.00009'') [''Computer Vision (cs.CV)'']]]"
  have hyp: "lower (tag ?h) = ''h3''"
    "str_contains ''cross submission'' (lower (strip (concat (text_nodes ?h))))"
    "\<not> str_contains ''new submission'' (lower (strip (concat (text_nodes ?h))))"
    by code_simp+
  have "lower ''dl'' \<noteq> ''h3''" by code_simp
  then have bs: "\<forall>b \<in> set ?bs. lower (tag b) \<noteq> ''h3''" by (simp add: block_def)
  have ranks: "map section_rank (page_items (state_of (for_each (process_section example_page ''math.QA'' 0)
      example_state (?h # ?bs)))) = [1]" by code_simp
  from cross_heading_rank [OF hyp bs refl, of example_page "''math.QA''" 0 example_state]
  have "current_section_rank (state_of (for_each (process_section example_page ''math.QA'' 0)
      example_state (?h # ?bs))) = 1" by simp
  with hyp ranks show ?thesis by simp
qed

subsection \<open>Extraction of the categories\<close>

text \<open>
  Claim C7. For the subject text
  \<^verbatim>\<open>Representation Theory (math.RT); Quantum Algebra (math.QA)\<close> the set of the codes found
  is \<^verbatim>\<open>{math.RT, math.QA}\<close>. For every subject text, the set of the codes found is the set
  of the subject codes that occur in the text between an opening and a closing
  parenthesis.
\<close>

theorem category_extraction:
  "set (findall_codes ''Representation Theory (math.RT); Quantum Algebra (math.QA)'') =
     {''math.RT'', ''math.QA''} \<and>
   set (findall_codes t) = {c. is_subject_code c \<and> sublist (''('' @ c @ '')'') t}"
proof -
  have one: "set (findall_codes ''Representation Theory (math.RT); Quantum Algebra (math.QA)'') =
     {''math.RT'', ''math.QA''}" by code_simp
  have two: "set (findall_codes t) = {c. is_subject_code c \<and> sublist (''('' @ c @ '')'') t}"
  proof (intro set_eqI iffI)
    fix c assume "c \<in> set (findall_codes t)"
    then show "c \<in> {c. is_subject_code c \<and> sublist (''('' @ c @ '')'') t}"
      using findall_codes_sound by simp
  next
    fix c assume "c \<in> {c. is_subject_code c \<and> sublist (''('' @ c @ '')'') t}"
    then obtain ps ss where "is_subject_code c" "t = ps @ (''('' @ c @ '')'') @ ss"
      unfolding sublist_def by blast
    then show "c \<in> set (findall_codes t)"
      using findall_codes_complete [of c t ps ss] by simp
  qed
  from one two show ?thesis by simp
qed

theorem category_extraction_witness:
  "is_subject_code ''math.QA'' \<and>
   sublist (''('' @ ''math.QA'' @ '')'') ''Quantum Algebra (math.QA)'' \<and>
   ''math.QA'' \<in> set (findall_codes ''Quantum Algebra (math.QA)'') \<and>
   \<not> is_subject_code ''Math.QA'' \<and>
   ''Math.QA'' \<notin> set (findall_codes ''Quantum Algebra (Math.QA)'')"
proof -
  have a: "is_subject_code ''math.QA''" "\<not> is_subject_code ''Math.QA''" by code_simp+
  have b: "sublist (''('' @ ''math.QA'' @ '')'') ''Quantum Algebra (math.QA)''" by code_simp
  from category_extraction [of "''Quantum Algebra (math.QA)''"] a b
  have c: "''math.QA'' \<in> set (findall_codes ''Quantum Algebra (math.QA)'')" by blast
  from category_extraction [of "''Quantum Algebra (Math.QA)''"] a
  have d: "''Math.QA'' \<notin> set (findall_codes ''Quantum Algebra (Math.QA)'')" by blast
  from a b c d show ?thesis by simp
qed

end
